theory Spec2Isabelle
  imports Complex_Main "HOL-Library.AList" "HOL-Library.Char_ord" "HOL-Library.List_Lexorder"
    "HOL-Library.Multiset"
begin

section \<open>ECMAScript Number values\<close>

text \<open>
  \<^verbatim>\<open>src/src/App.js\<close> computes with JavaScript Numbers: IEEE 754 binary64 values.
  A Number is \<open>NaN\<close>, one of the two infinities, negative zero, or a finite real;
  \<open>Fin 0\<close> is positive zero and every other \<open>Fin x\<close> stands for the double \<open>x\<close>.
\<close>

datatype jsnum = NaN | PInf | NInf | NZero | Fin real

definition zero_of :: "bool \<Rightarrow> jsnum" where
  "zero_of neg = (if neg then NZero else Fin 0)"

definition inf_of :: "bool \<Rightarrow> jsnum" where
  "inf_of neg = (if neg then NInf else PInf)"

text \<open>Rounding a non-negative real to the nearest integer, ties to the even one.\<close>

definition round_half_even :: "real \<Rightarrow> int" where
  "round_half_even s =
     (let f = \<lfloor>s\<rfloor>; r = s - of_int f
      in if r < 1 / 2 then f else if 1 / 2 < r then f + 1 else if even f then f else f + 1)"

text \<open>
  The Number value of a real (ECMA-262 6.1.6.1, IEEE 754 roundTiesToEven): the
  significand has 53 bits, the least exponent of a unit in the last place is \<open>-1074\<close>,
  and a result of magnitude \<open>2^1024\<close> is an infinity. \<open>negz\<close> is the sign given to an
  exact zero; a nonzero real that rounds to zero keeps its own sign.
\<close>

definition number_value :: "bool \<Rightarrow> real \<Rightarrow> jsnum" where
  "number_value negz x =
     (if x = 0 then zero_of negz
      else let e = \<lfloor>log 2 \<bar>x\<bar>\<rfloor>;
               q = max e (- 1022) - 52;
               m = round_half_even (\<bar>x\<bar> / 2 powi q);
               y = of_int m * 2 powi q
           in if 2 powi 1024 \<le> y then inf_of (x < 0)
              else if m = 0 then zero_of (x < 0)
              else Fin (if x < 0 then - y else y))"

fun is_neg :: "jsnum \<Rightarrow> bool" where
  "is_neg NInf = True"
| "is_neg NZero = True"
| "is_neg (Fin x) = (x < 0)"
| "is_neg _ = False"

fun is_zero :: "jsnum \<Rightarrow> bool" where
  "is_zero NZero = True"
| "is_zero (Fin x) = (x = 0)"
| "is_zero _ = False"

fun is_inf :: "jsnum \<Rightarrow> bool" where
  "is_inf PInf = True"
| "is_inf NInf = True"
| "is_inf _ = False"

text \<open>The real a finite Number denotes (both zeros denote 0).\<close>

fun rv :: "jsnum \<Rightarrow> real" where
  "rv (Fin x) = x"
| "rv _ = 0"

fun js_neg :: "jsnum \<Rightarrow> jsnum" where
  "js_neg NaN = NaN"
| "js_neg PInf = NInf"
| "js_neg NInf = PInf"
| "js_neg NZero = Fin 0"
| "js_neg (Fin x) = (if x = 0 then NZero else Fin (- x))"

text \<open>\<^verbatim>\<open>a + b\<close>, \<^verbatim>\<open>a - b\<close>, \<^verbatim>\<open>a * b\<close>, \<^verbatim>\<open>a / b\<close> on Numbers (ECMA-262 6.1.6.1.3 to 6.1.6.1.8).\<close>

definition js_add :: "jsnum \<Rightarrow> jsnum \<Rightarrow> jsnum" where
  "js_add a b =
     (if a = NaN \<or> b = NaN then NaN
      else if is_inf a then (if is_inf b \<and> a \<noteq> b then NaN else a)
      else if is_inf b then b
      else number_value (a = NZero \<and> b = NZero) (rv a + rv b))"

definition js_sub :: "jsnum \<Rightarrow> jsnum \<Rightarrow> jsnum" where
  "js_sub a b = js_add a (js_neg b)"

definition js_mul :: "jsnum \<Rightarrow> jsnum \<Rightarrow> jsnum" where
  "js_mul a b =
     (if a = NaN \<or> b = NaN then NaN
      else if is_inf a \<or> is_inf b
        then (if is_zero a \<or> is_zero b then NaN else inf_of (is_neg a \<noteq> is_neg b))
      else number_value (is_neg a \<noteq> is_neg b) (rv a * rv b))"

definition js_div :: "jsnum \<Rightarrow> jsnum \<Rightarrow> jsnum" where
  "js_div a b =
     (if a = NaN \<or> b = NaN then NaN
      else if is_inf a then (if is_inf b then NaN else inf_of (is_neg a \<noteq> is_neg b))
      else if is_inf b then zero_of (is_neg a \<noteq> is_neg b)
      else if is_zero b then (if is_zero a then NaN else inf_of (is_neg a \<noteq> is_neg b))
      else number_value (is_neg a \<noteq> is_neg b) (rv a / rv b))"

text \<open>\<^verbatim>\<open>a < b\<close>, \<^verbatim>\<open>a > b\<close>, \<^verbatim>\<open>a <= b\<close>, \<^verbatim>\<open>a === b\<close> and truthiness: every comparison with \<open>NaN\<close> is false.\<close>

definition js_lt :: "jsnum \<Rightarrow> jsnum \<Rightarrow> bool" where
  "js_lt a b =
     (a \<noteq> NaN \<and> b \<noteq> NaN \<and> a \<noteq> PInf \<and> b \<noteq> NInf \<and> (a = NInf \<or> b = PInf \<or> rv a < rv b))"

definition js_gt :: "jsnum \<Rightarrow> jsnum \<Rightarrow> bool" where
  "js_gt a b = js_lt b a"

definition js_le :: "jsnum \<Rightarrow> jsnum \<Rightarrow> bool" where
  "js_le a b = (a \<noteq> NaN \<and> b \<noteq> NaN \<and> \<not> js_lt b a)"

definition js_strict_eq :: "jsnum \<Rightarrow> jsnum \<Rightarrow> bool" where
  "js_strict_eq a b = (a \<noteq> NaN \<and> b \<noteq> NaN \<and> (a = b \<or> (is_zero a \<and> is_zero b)))"

definition truthy :: "jsnum \<Rightarrow> bool" where
  "truthy a = (a \<noteq> NaN \<and> \<not> is_zero a)"

definition isNaN :: "jsnum \<Rightarrow> bool" where
  "isNaN a = (a = NaN)"

text \<open>
  \<^verbatim>\<open>Number(x.toFixed(2))\<close>. \<^verbatim>\<open>toFixed\<close> (ECMA-262 21.1.3.3) prints \<open>NaN\<close> and the infinities
  by name and a magnitude of at least \<open>10^21\<close> in full, all of which \<^verbatim>\<open>Number\<close> reads back
  unchanged. Otherwise it prints the sign (only when \<open>x < 0\<close>, so not for negative zero)
  and \<open>n / 100\<close> for the integer \<open>n\<close> nearest to \<open>\<bar>x\<bar> * 100\<close>, the larger one on a tie;
  \<^verbatim>\<open>Number\<close> rounds that decimal to a double, and reads \<^verbatim>\<open>-0.00\<close> as negative zero.
\<close>

fun fixed2 :: "jsnum \<Rightarrow> jsnum" where
  "fixed2 NaN = NaN"
| "fixed2 PInf = PInf"
| "fixed2 NInf = NInf"
| "fixed2 NZero = Fin 0"
| "fixed2 (Fin x) =
     (if 10 ^ 21 \<le> \<bar>x\<bar> then Fin x
      else let n = \<lfloor>\<bar>x\<bar> * 100 + 1 / 2\<rfloor>
           in if x < 0 then number_value True (- (of_int n / 100))
              else number_value False (of_int n / 100))"

section \<open>Strings and conversions\<close>

text \<open>
  Strings are lists of code units below 256. The decimal numeral of an integer is what
  \<^verbatim>\<open>String(n)\<close> and a template literal print for an integral Number below \<open>10^21\<close> in
  magnitude (ECMA-262 6.1.6.1.20).
\<close>

definition digit_char :: "nat \<Rightarrow> char" where
  "digit_char d = ''0123456789'' ! d"

fun digits_of :: "nat \<Rightarrow> string" where
  "digits_of n = (if n < 10 then [digit_char n] else digits_of (n div 10) @ [digit_char (n mod 10)])"

definition show_int :: "int \<Rightarrow> string" where
  "show_int i = (if i < 0 then CHR ''-'' # digits_of (nat (- i)) else digits_of (nat i))"

text \<open>
  The runtime supplies what the program does not define: \<^verbatim>\<open>Date.parse\<close> (whose fallback
  formats are implementation-defined), the local time zone offset at a UTC time, and the
  shortest round-trip digits \<^verbatim>\<open>Number::toString\<close> prints for a Number that is not an
  integer below \<open>10^21\<close>. They are parameters of the model.
\<close>

record js_env =
  DateParse :: "string \<Rightarrow> int option"
  LocalTZA :: "int \<Rightarrow> int"
  NumberToStringOther :: "real \<Rightarrow> string"

definition NumberToString :: "js_env \<Rightarrow> jsnum \<Rightarrow> string" where
  "NumberToString env x =
     (case x of
        NaN \<Rightarrow> ''NaN''
      | PInf \<Rightarrow> ''Infinity''
      | NInf \<Rightarrow> ''-Infinity''
      | NZero \<Rightarrow> ''0''
      | Fin r \<Rightarrow> if of_int \<lfloor>r\<rfloor> = r \<and> \<bar>r\<bar> < 10 ^ 21 then show_int \<lfloor>r\<rfloor>
                 else NumberToStringOther env r)"

text \<open>\<^verbatim>\<open>s.padStart(2, "0")\<close> and \<^verbatim>\<open>s.split("-")\<close>.\<close>

definition padStart2 :: "string \<Rightarrow> string" where
  "padStart2 s = replicate (2 - length s) CHR ''0'' @ s"

fun split_on :: "char \<Rightarrow> string \<Rightarrow> string list" where
  "split_on c [] = [[]]"
| "split_on c (x # xs) =
     (if x = c then [] # split_on c xs
      else (case split_on c xs of [] \<Rightarrow> [[x]] | p # ps \<Rightarrow> (x # p) # ps))"

text \<open>
  \<^verbatim>\<open>Number(s)\<close> on a string (ECMA-262 7.1.4.1.1, StringToNumber): white space is trimmed,
  the empty string is \<open>+0\<close>, then a binary, octal or hexadecimal integer literal, or an
  optionally signed \<^verbatim>\<open>Infinity\<close> or decimal literal with optional fraction and exponent;
  anything else is \<open>NaN\<close>. The mathematical value is rounded to a double.
\<close>

definition is_ws :: "char \<Rightarrow> bool" where
  "is_ws c = (of_char c \<in> {9, 10, 11, 12, 13, 32, 160 :: nat})"

definition trim :: "string \<Rightarrow> string" where
  "trim s = rev (dropWhile is_ws (rev (dropWhile is_ws s)))"

definition is_digit :: "char \<Rightarrow> bool" where
  "is_digit c = (48 \<le> (of_char c :: nat) \<and> (of_char c :: nat) \<le> 57)"

definition digit_val :: "char \<Rightarrow> nat" where
  "digit_val c = of_char c - 48"

definition dec_val :: "string \<Rightarrow> nat" where
  "dec_val ds = foldl (\<lambda>a c. 10 * a + digit_val c) 0 ds"

definition all_digits :: "string \<Rightarrow> bool" where
  "all_digits s = (s \<noteq> [] \<and> list_all is_digit s)"

definition radix_digit :: "char \<Rightarrow> nat option" where
  "radix_digit c =
     (let k = (of_char c :: nat)
      in if 48 \<le> k \<and> k \<le> 57 then Some (k - 48)
         else if 97 \<le> k \<and> k \<le> 102 then Some (k - 87)
         else if 65 \<le> k \<and> k \<le> 70 then Some (k - 55)
         else None)"

definition parse_radix :: "nat \<Rightarrow> string \<Rightarrow> nat option" where
  "parse_radix b ds =
     (if ds \<noteq> [] \<and> list_all (\<lambda>c. case radix_digit c of None \<Rightarrow> False | Some d \<Rightarrow> d < b) ds
      then Some (foldl (\<lambda>a c. b * a + (case radix_digit c of None \<Rightarrow> 0 | Some d \<Rightarrow> d)) 0 ds)
      else None)"

definition parse_exponent :: "string \<Rightarrow> int option" where
  "parse_exponent s =
     (case s of
        [] \<Rightarrow> Some 0
      | c # r \<Rightarrow>
          if c = CHR ''e'' \<or> c = CHR ''E'' then
            (case r of
               [] \<Rightarrow> None
             | d # r' \<Rightarrow>
                 if d = CHR ''+'' then (if all_digits r' then Some (int (dec_val r')) else None)
                 else if d = CHR ''-'' then (if all_digits r' then Some (- int (dec_val r')) else None)
                 else if all_digits r then Some (int (dec_val r)) else None)
          else None)"

definition parse_unsigned_decimal :: "string \<Rightarrow> real option" where
  "parse_unsigned_decimal s =
     (let ip = takeWhile is_digit s;
          r1 = dropWhile is_digit s;
          dot = (r1 \<noteq> [] \<and> hd r1 = CHR ''.'');
          fp = (if dot then takeWhile is_digit (tl r1) else []);
          r2 = (if dot then dropWhile is_digit (tl r1) else r1)
      in if ip = [] \<and> fp = [] then None
         else (case parse_exponent r2 of
                 None \<Rightarrow> None
               | Some ex \<Rightarrow>
                   Some ((real (dec_val ip) + real (dec_val fp) / 10 ^ length fp) * 10 powi ex)))"

definition StringToNumber :: "string \<Rightarrow> jsnum" where
  "StringToNumber s =
     (let t = trim s
      in if t = [] then Fin 0
         else if take 2 t = ''0x'' \<or> take 2 t = ''0X'' then
           (case parse_radix 16 (drop 2 t) of None \<Rightarrow> NaN | Some n \<Rightarrow> number_value False (real n))
         else if take 2 t = ''0o'' \<or> take 2 t = ''0O'' then
           (case parse_radix 8 (drop 2 t) of None \<Rightarrow> NaN | Some n \<Rightarrow> number_value False (real n))
         else if take 2 t = ''0b'' \<or> take 2 t = ''0B'' then
           (case parse_radix 2 (drop 2 t) of None \<Rightarrow> NaN | Some n \<Rightarrow> number_value False (real n))
         else
           (let neg = (hd t = CHR ''-'');
                u = (if hd t = CHR ''-'' \<or> hd t = CHR ''+'' then tl t else t)
            in if u = ''Infinity'' then inf_of neg
               else (case parse_unsigned_decimal u of
                       None \<Rightarrow> NaN
                     | Some mv \<Rightarrow> number_value neg (if neg then - mv else mv))))"

section \<open>Values of a decoded sheet and Date objects\<close>

text \<open>
  A cell of a decoded row is \<^verbatim>\<open>undefined\<close> (no such column), \<^verbatim>\<open>null\<close> (the decoder's
  \<^verbatim>\<open>defval\<close>), a boolean, a Number, a string or a Date object. A Date object holds a time
  value: an integral number of milliseconds since the epoch, or \<open>NaN\<close> (\<open>None\<close>) when
  the date is invalid.
\<close>

datatype jsval = JUndefined | JNull | JBool bool | JNum jsnum | JStr string | JDate "int option"

definition time_number :: "int option \<Rightarrow> jsnum" where
  "time_number d = (case d of None \<Rightarrow> NaN | Some t \<Rightarrow> Fin (of_int t))"

fun ToNumber :: "jsval \<Rightarrow> jsnum" where
  "ToNumber JUndefined = NaN"
| "ToNumber JNull = Fin 0"
| "ToNumber (JBool b) = Fin (if b then 1 else 0)"
| "ToNumber (JNum n) = n"
| "ToNumber (JStr s) = StringToNumber s"
| "ToNumber (JDate d) = time_number d"

text \<open>\<^verbatim>\<open>TimeClip\<close> (ECMA-262 21.4.1.31) and \<^verbatim>\<open>new Date(value)\<close> (21.4.2.1).\<close>

definition TimeClip :: "jsnum \<Rightarrow> int option" where
  "TimeClip x =
     (case x of
        Fin r \<Rightarrow> if 8640000000000000 < \<bar>r\<bar> then None
                 else Some (if r < 0 then - \<lfloor>- r\<rfloor> else \<lfloor>r\<rfloor>)
      | NZero \<Rightarrow> Some 0
      | _ \<Rightarrow> None)"

definition NewDate :: "js_env \<Rightarrow> jsval \<Rightarrow> int option" where
  "NewDate env v =
     (case v of
        JDate d \<Rightarrow> d
      | JStr s \<Rightarrow> DateParse env s
      | _ \<Rightarrow> TimeClip (ToNumber v))"

text \<open>Calendar arithmetic on time values (ECMA-262 21.4.1.3 to 21.4.1.12).\<close>

definition msPerDay :: int where
  "msPerDay = 86400000"

definition Day :: "int \<Rightarrow> int" where
  "Day t = t div msPerDay"

definition DayFromYear :: "int \<Rightarrow> int" where
  "DayFromYear y =
     365 * (y - 1970) + (y - 1969) div 4 - (y - 1901) div 100 + (y - 1601) div 400"

definition DaysInYear :: "int \<Rightarrow> int" where
  "DaysInYear y =
     (if y mod 4 \<noteq> 0 then 365 else if y mod 100 \<noteq> 0 then 366
      else if y mod 400 \<noteq> 0 then 365 else 366)"

text \<open>
  \<^verbatim>\<open>YearFromTime\<close> is the largest year whose first day is not after the day of \<open>t\<close>.
  A period of 400 years has 146097 days; within it the quotient by 366 is at most two
  years short.
\<close>

definition YearFromTime :: "int \<Rightarrow> int" where
  "YearFromTime t =
     (let d = Day t;
          y0 = 1970 + 400 * (d div 146097) + (d mod 146097) div 366
      in if DayFromYear (y0 + 2) \<le> d then y0 + 2
         else if DayFromYear (y0 + 1) \<le> d then y0 + 1
         else y0)"

definition DayWithinYear :: "int \<Rightarrow> int" where
  "DayWithinYear t = Day t - DayFromYear (YearFromTime t)"

definition InLeapYear :: "int \<Rightarrow> int" where
  "InLeapYear t = (if DaysInYear (YearFromTime t) = 366 then 1 else 0)"

definition MonthFromTime :: "int \<Rightarrow> int" where
  "MonthFromTime t =
     (let d = DayWithinYear t; l = InLeapYear t
      in if d < 31 then 0
         else if d < 59 + l then 1
         else if d < 90 + l then 2
         else if d < 120 + l then 3
         else if d < 151 + l then 4
         else if d < 181 + l then 5
         else if d < 212 + l then 6
         else if d < 243 + l then 7
         else if d < 273 + l then 8
         else if d < 304 + l then 9
         else if d < 334 + l then 10
         else 11)"

definition DateFromTime :: "int \<Rightarrow> int" where
  "DateFromTime t =
     (let d = DayWithinYear t; l = InLeapYear t; m = MonthFromTime t
      in if m = 0 then d + 1
         else if m = 1 then d - 30
         else if m = 2 then d - 58 - l
         else if m = 3 then d - 89 - l
         else if m = 4 then d - 119 - l
         else if m = 5 then d - 150 - l
         else if m = 6 then d - 180 - l
         else if m = 7 then d - 211 - l
         else if m = 8 then d - 242 - l
         else if m = 9 then d - 272 - l
         else if m = 10 then d - 303 - l
         else d - 333 - l)"

text \<open>\<^verbatim>\<open>d.getFullYear()\<close> and \<^verbatim>\<open>d.getMonth()\<close> read the local time; both are \<open>NaN\<close> on an invalid date.\<close>

definition LocalTime :: "js_env \<Rightarrow> int \<Rightarrow> int" where
  "LocalTime env t = t + LocalTZA env t"

definition getFullYear :: "js_env \<Rightarrow> int option \<Rightarrow> jsnum" where
  "getFullYear env d =
     (case d of None \<Rightarrow> NaN | Some t \<Rightarrow> Fin (of_int (YearFromTime (LocalTime env t))))"

definition getMonth :: "js_env \<Rightarrow> int option \<Rightarrow> jsnum" where
  "getMonth env d =
     (case d of None \<Rightarrow> NaN | Some t \<Rightarrow> Fin (of_int (MonthFromTime (LocalTime env t))))"

text \<open>
  \<^verbatim>\<open>d.toISOString().slice(0, 10)\<close> on a valid date: the UTC year (four digits, or a sign
  and six digits outside 0..9999), month and day. The rest of the ISO string starts at
  index 10 or later and is cut by the slice.
\<close>

definition pad_left :: "nat \<Rightarrow> string \<Rightarrow> string" where
  "pad_left n s = replicate (n - length s) CHR ''0'' @ s"

definition iso_year :: "int \<Rightarrow> string" where
  "iso_year y =
     (if 0 \<le> y \<and> y \<le> 9999 then pad_left 4 (digits_of (nat y))
      else (if y < 0 then CHR ''-'' else CHR ''+'') # pad_left 6 (digits_of (nat \<bar>y\<bar>)))"

definition iso_date10 :: "int \<Rightarrow> string" where
  "iso_date10 t =
     take 10 (iso_year (YearFromTime t) @ ''-'' @ pad_left 2 (digits_of (nat (MonthFromTime t + 1)))
              @ ''-'' @ pad_left 2 (digits_of (nat (DateFromTime t))))"

section \<open>parseSheetData\<close>

text \<open>
  \<^verbatim>\<open>parseSheetData\<close> receives the rows the sheet decoder returns (a list of objects), reads
  the properties \<^verbatim>\<open>"Date"\<close> and \<^verbatim>\<open>"Nav"\<close> of each, keeps the rows whose date and nav are not
  \<open>NaN\<close>, and sorts them with the comparator \<^verbatim>\<open>(a, b) => a.date - b.date\<close>.
\<close>

type_synonym raw_record = "string \<rightharpoonup> jsval"

record row =
  date :: "int option"
  nav :: jsnum

definition prop_of :: "raw_record \<Rightarrow> string \<Rightarrow> jsval" where
  "prop_of r k = (case r k of None \<Rightarrow> JUndefined | Some v \<Rightarrow> v)"

definition to_row :: "js_env \<Rightarrow> raw_record \<Rightarrow> row" where
  "to_row env r = \<lparr>date = NewDate env (prop_of r ''Date''), nav = ToNumber (prop_of r ''Nav'')\<rparr>"

text \<open>
  The filter. Every mapped row holds a Date object and a Number, so the tests
  \<^verbatim>\<open>r.date instanceof Date\<close> and \<^verbatim>\<open>typeof r.nav === "number"\<close> are always true; what
  decides is \<^verbatim>\<open>!isNaN(r.date)\<close>, which converts the date to its time value, and
  \<^verbatim>\<open>!isNaN(r.nav)\<close>.
\<close>

definition keep_row :: "row \<Rightarrow> bool" where
  "keep_row r = (\<not> isNaN (time_number (date r)) \<and> \<not> isNaN (nav r))"

definition compare_dates :: "row \<Rightarrow> row \<Rightarrow> jsnum" where
  "compare_dates a b = js_sub (time_number (date a)) (time_number (date b))"

text \<open>
  \<^verbatim>\<open>Array.prototype.sort\<close> (ECMA-262 23.1.3.30) is stable, and reads a comparator result of
  \<open>NaN\<close> as \<open>+0\<close>. On the kept rows the comparator is a consistent order, for which the
  standard fixes the result: the stable sorted arrangement, computed here by insertion.
\<close>

definition SortCompare :: "('a \<Rightarrow> 'a \<Rightarrow> jsnum) \<Rightarrow> 'a \<Rightarrow> 'a \<Rightarrow> jsnum" where
  "SortCompare cmp x y = (let v = cmp x y in if v = NaN then Fin 0 else v)"

fun insert_sorted :: "('a \<Rightarrow> 'a \<Rightarrow> jsnum) \<Rightarrow> 'a \<Rightarrow> 'a list \<Rightarrow> 'a list" where
  "insert_sorted cmp x [] = [x]"
| "insert_sorted cmp x (y # ys) =
     (if js_gt (SortCompare cmp x y) (Fin 0) then y # insert_sorted cmp x ys else x # y # ys)"

definition array_sort :: "('a \<Rightarrow> 'a \<Rightarrow> jsnum) \<Rightarrow> 'a list \<Rightarrow> 'a list" where
  "array_sort cmp xs = foldr (insert_sorted cmp) xs []"

definition parseSheetData :: "js_env \<Rightarrow> raw_record list \<Rightarrow> row list" where
  "parseSheetData env raw =
     (if raw = [] then []
      else array_sort compare_dates (filter keep_row (map (to_row env) raw)))"

section \<open>computeSeries\<close>

record equity_point =
  ep_date :: string
  ep_value :: jsnum

record drawdown_point =
  dp_date :: string
  dp_drawdown :: jsnum

text \<open>\<^verbatim>\<open>ret\<close> is a Number or \<^verbatim>\<open>null\<close> (\<open>None\<close>); \<^verbatim>\<open>month\<close> is the second piece of the split key.\<close>

record monthly_return =
  mr_month :: jsval
  mr_ret :: "jsnum option"

record series =
  equity :: "equity_point list"
  drawdown :: "drawdown_point list"
  monthReturnsByYear :: "string \<rightharpoonup> monthly_return list"

text \<open>\<^verbatim>\<open>toISOString\<close> throws a \<^verbatim>\<open>RangeError\<close> on an invalid date.\<close>

datatype js_error = RangeError

text \<open>The first loop: one equity point per row, rebased on \<^verbatim>\<open>rows[0].nav\<close>.\<close>

definition equity_point_of :: "jsnum \<Rightarrow> row \<Rightarrow> js_error + equity_point" where
  "equity_point_of base r =
     (let v = js_mul (js_div (nav r) base) (Fin 100)
      in case date r of
           None \<Rightarrow> Inl RangeError
         | Some t \<Rightarrow> Inr \<lparr>ep_date = iso_date10 t, ep_value = fixed2 v\<rparr>)"

fun equity_loop :: "jsnum \<Rightarrow> row list \<Rightarrow> js_error + equity_point list" where
  "equity_loop base [] = Inr []"
| "equity_loop base (r # rs) =
     (case equity_point_of base r of
        Inl e \<Rightarrow> Inl e
      | Inr p \<Rightarrow> (case equity_loop base rs of Inl e \<Rightarrow> Inl e | Inr ps \<Rightarrow> Inr (p # ps)))"

text \<open>The second loop: the running peak starts at \<^verbatim>\<open>-Infinity\<close> and moves on a strict \<^verbatim>\<open>>\<close>.\<close>

fun drawdown_loop :: "jsnum \<Rightarrow> equity_point list \<Rightarrow> drawdown_point list" where
  "drawdown_loop peak [] = []"
| "drawdown_loop peak (pt # pts) =
     (let peak' = (if js_gt (ep_value pt) peak then ep_value pt else peak);
          dd = js_mul (js_div (js_sub (ep_value pt) peak') peak') (Fin 100)
      in \<lparr>dp_date = ep_date pt, dp_drawdown = fixed2 dd\<rparr> # drawdown_loop peak' pts)"

text \<open>
  The third loop fills \<^verbatim>\<open>byMonth\<close>, an object used as a dictionary: an assignment to a
  key that is present replaces its value in place, a new key goes last.
\<close>

definition monthKey :: "js_env \<Rightarrow> row \<Rightarrow> string" where
  "monthKey env r =
     (let y = getFullYear env (date r);
          m = js_add (getMonth env (date r)) (Fin 1)
      in NumberToString env y @ ''-'' @ padStart2 (NumberToString env m))"

definition byMonth_loop :: "js_env \<Rightarrow> row list \<Rightarrow> (string \<times> jsnum) list" where
  "byMonth_loop env rows = fold (\<lambda>r bm. AList.update (monthKey env r) (nav r) bm) rows []"

text \<open>
  The fourth loop visits the keys in sorted order. A key is split at every \<^verbatim>\<open>-\<close>; \<^verbatim>\<open>y\<close> is
  the first piece and \<^verbatim>\<open>mm\<close> the second (\<^verbatim>\<open>undefined\<close> when there is none). A missing
  property reads as \<^verbatim>\<open>undefined\<close>, which is falsy as \<^verbatim>\<open>prevVal\<close> and \<open>NaN\<close> as a dividend.
\<close>

definition key_year :: "string \<Rightarrow> string" where
  "key_year k = hd (split_on CHR ''-'' k)"

definition key_month :: "string \<Rightarrow> jsval" where
  "key_month k =
     (let ps = split_on CHR ''-'' k in if 2 \<le> length ps then JStr (ps ! 1) else JUndefined)"

definition prevKey :: "js_env \<Rightarrow> string \<Rightarrow> string" where
  "prevKey env k =
     (let y = key_year k;
          mmNum = ToNumber (key_month k)
      in if js_strict_eq mmNum (Fin 1)
         then NumberToString env (js_sub (StringToNumber y) (Fin 1)) @ ''-12''
         else y @ ''-'' @ padStart2 (NumberToString env (js_sub mmNum (Fin 1))))"

definition month_ret :: "js_env \<Rightarrow> (string \<times> jsnum) list \<Rightarrow> string \<Rightarrow> jsnum option" where
  "month_ret env bm k =
     (let v = (case map_of bm k of None \<Rightarrow> NaN | Some x \<Rightarrow> x)
      in case map_of bm (prevKey env k) of
           None \<Rightarrow> None
         | Some prevVal \<Rightarrow>
             if truthy prevVal \<and> js_gt prevVal (Fin 0)
             then Some (fixed2 (js_mul (js_sub (js_div v prevVal) (Fin 1)) (Fin 100)))
             else None)"

definition month_step ::
  "js_env \<Rightarrow> (string \<times> jsnum) list \<Rightarrow> string \<Rightarrow> (string \<rightharpoonup> monthly_return list)
     \<Rightarrow> (string \<rightharpoonup> monthly_return list)" where
  "month_step env bm k out =
     (let y = key_year k;
          old = (case out y of None \<Rightarrow> [] | Some l \<Rightarrow> l)
      in out(y \<mapsto> old @ [\<lparr>mr_month = key_month k, mr_ret = month_ret env bm k\<rparr>]))"

definition keysSorted :: "(string \<times> jsnum) list \<Rightarrow> string list" where
  "keysSorted bm = sort (map fst bm)"

definition computeSeries :: "js_env \<Rightarrow> row list \<Rightarrow> js_error + series" where
  "computeSeries env rows =
     (if rows = [] then Inr \<lparr>equity = [], drawdown = [], monthReturnsByYear = Map.empty\<rparr>
      else case equity_loop (nav (hd rows)) rows of
             Inl e \<Rightarrow> Inl e
           | Inr eq \<Rightarrow>
               (let bm = byMonth_loop env rows
                in Inr \<lparr>equity = eq,
                        drawdown = drawdown_loop NInf eq,
                        monthReturnsByYear = fold (month_step env bm) (keysSorted bm) Map.empty\<rparr>))"

section \<open>Predicates used in the statements\<close>

text \<open>A finite Number (either zero included), and a positive real.\<close>

fun finite_number :: "jsnum \<Rightarrow> bool" where
  "finite_number (Fin x) = True"
| "finite_number NZero = True"
| "finite_number _ = False"

fun positive_real :: "jsnum \<Rightarrow> bool" where
  "positive_real (Fin x) = (0 < x)"
| "positive_real _ = False"

text \<open>The two tests of the normalizer on a raw record, as the specification words them.\<close>

definition date_valid :: "js_env \<Rightarrow> raw_record \<Rightarrow> bool" where
  "date_valid env r = (NewDate env (prop_of r ''Date'') \<noteq> None)"

definition nav_number :: "raw_record \<Rightarrow> jsnum" where
  "nav_number r = ToNumber (prop_of r ''Nav'')"

text \<open>What \<^verbatim>\<open>computeSeries\<close> returns on an empty list of rows.\<close>

definition empty_series :: series where
  "empty_series = \<lparr>equity = [], drawdown = [], monthReturnsByYear = Map.empty\<rparr>"

text \<open>
  A series of valid dates: every row holds a valid Date object, whose time value lies
  within the range \<^verbatim>\<open>TimeClip\<close> admits, as every time value of the runtime does. The local
  time zone offset of the runtime is at most a day.
\<close>

definition valid_series :: "row list \<Rightarrow> bool" where
  "valid_series rows = (\<forall>r\<in>set rows. \<exists>t. date r = Some t \<and> \<bar>t\<bar> \<le> 8640000000000000)"

definition zone_ok :: "js_env \<Rightarrow> bool" where
  "zone_ok env = (\<forall>t. \<bar>LocalTZA env t\<bar> \<le> msPerDay)"

text \<open>
  The monthly matrix in the words of the specification: the key of year \<open>y\<close> and month
  \<open>m\<close>, the key of the calendar month before it, and the return computed from the bucket
  of that key.
\<close>

definition month_key :: "int \<Rightarrow> int \<Rightarrow> string" where
  "month_key y m = show_int y @ ''-'' @ padStart2 (show_int m)"

definition preceding_key :: "int \<Rightarrow> int \<Rightarrow> string" where
  "preceding_key y m = (if m = 1 then month_key (y - 1) 12 else month_key y (m - 1))"

definition expected_ret :: "jsnum option \<Rightarrow> jsnum \<Rightarrow> jsnum option" where
  "expected_ret prev v =
     (case prev of
        None \<Rightarrow> None
      | Some p \<Rightarrow>
          if truthy p \<and> js_gt p (Fin 0)
          then Some (fixed2 (js_mul (js_sub (js_div v p) (Fin 1)) (Fin 100)))
          else None)"

text \<open>A decoded row with the two columns the program reads.\<close>

definition raw_rec :: "jsval \<Rightarrow> jsval \<Rightarrow> raw_record" where
  "raw_rec d n = [''Date'' \<mapsto> d, ''Nav'' \<mapsto> n]"

text \<open>Two rows in date order: both dates valid, the first not after the second.\<close>

definition date_le :: "row \<Rightarrow> row \<Rightarrow> bool" where
  "date_le a b = (case (date a, date b) of (Some s, Some t) \<Rightarrow> s \<le> t | _ \<Rightarrow> False)"

text \<open>
  The environment of the examples: UTC. The examples hold no date strings and print
  integers only, so its other two components are never consulted.
\<close>

definition utc_env :: js_env where
  "utc_env = \<lparr>DateParse = (\<lambda>s. None), LocalTZA = (\<lambda>t. 0), NumberToStringOther = (\<lambda>x. [])\<rparr>"

text \<open>A Number that is \<^verbatim>\<open>-Infinity\<close>, a zero or a negative double: exactly those with \<^verbatim>\<open>x <= 0\<close>.\<close>

fun nonpos :: "jsnum \<Rightarrow> bool" where
  "nonpos NInf = True"
| "nonpos NZero = True"
| "nonpos (Fin x) = (x \<le> 0)"
| "nonpos _ = False"

section \<open>Rounding: the facts the program relies on\<close>

lemma round_half_even_of_int: "round_half_even (of_int n) = n"
  by (simp add: round_half_even_def)

lemma round_half_even_nonneg: "0 \<le> s \<Longrightarrow> 0 \<le> round_half_even s"
  by (auto simp: round_half_even_def Let_def)

lemma number_value_zero: "number_value negz 0 = zero_of negz"
  by (simp add: number_value_def)

lemma powi_nonpos_eq: "q \<le> 0 \<Longrightarrow> (2::real) powi q = 1 / 2 ^ nat (- q)"
  by (simp add: power_int_def field_simps)

lemma number_value_exact:
  assumes x0: "x \<noteq> 0"
    and int: "\<bar>x\<bar> / 2 powi (max \<lfloor>log 2 \<bar>x\<bar>\<rfloor> (- 1022) - 52) = of_int k"
    and small: "\<bar>x\<bar> < 2 powi 1024"
  shows "number_value z x = Fin x"
proof -
  define q where "q = max \<lfloor>log 2 \<bar>x\<bar>\<rfloor> (- 1022) - 52"
  have p: "(2::real) powi q > 0" by simp
  from int have k: "\<bar>x\<bar> = of_int k * 2 powi q"
    unfolding q_def[symmetric] using p by (simp add: field_simps)
  have kne: "k \<noteq> 0" using k x0 by auto
  have "round_half_even (\<bar>x\<bar> / 2 powi q) = k"
    using int unfolding q_def[symmetric] by (simp add: round_half_even_of_int)
  then show ?thesis
    using x0 small kne k unfolding number_value_def q_def[symmetric] Let_def
    by (auto simp: not_le)
qed

lemma floor_log2_le:
  assumes "1 \<le> a" "a \<le> 2 ^ N"
  shows "\<lfloor>log 2 a\<rfloor> \<le> int N"
proof -
  have "log 2 a \<le> log 2 (2 ^ N)" using assms by (subst log_le_cancel_iff) auto
  then have "log 2 a \<le> real N" by simp
  then show ?thesis by (simp add: floor_le_iff)
qed

lemma floor_log2_top:
  assumes "1 \<le> a" "a \<le> 2 ^ N" "\<lfloor>log 2 a\<rfloor> = int N"
  shows "a = 2 ^ N"
proof -
  have "2 powr (of_int (int N)) \<le> a"
    using floor_log_eq_powr_iff[of a 2 "int N"] assms by simp
  then have "2 ^ N \<le> a" by (simp add: powr_realpow)
  then show ?thesis using assms by simp
qed

lemma number_value_of_int_gen:
  assumes n0: "n \<noteq> 0" and b: "\<bar>real_of_int n\<bar> \<le> 2 ^ (Suc N)" and N: "N = 52"
  shows "number_value z (of_int n) = Fin (of_int n)"
proof -
  define a :: real where "a = \<bar>of_int n\<bar>"
  have a1: "1 \<le> a" using n0 by (simp add: a_def)
  have a2: "a \<le> 2 ^ (Suc N)" using b unfolding a_def .
  define e where "e = \<lfloor>log 2 a\<rfloor>"
  have e0: "0 \<le> e" unfolding e_def using a1 by simp
  have e53: "e \<le> int (Suc N)" unfolding e_def using floor_log2_le[OF a1 a2] .
  have m: "max e (- 1022) - 52 = e - int N" using e0 N by simp
  have "\<exists>k. a / 2 powi (e - int N) = of_int k"
  proof (cases "e \<le> int N")
    case True
    then have "a / 2 powi (e - int N) = a * 2 ^ nat (int N - e)"
      by (simp add: powi_nonpos_eq)
    also have "\<dots> = of_int (\<bar>n\<bar> * 2 ^ nat (int N - e))" by (simp add: a_def)
    finally show ?thesis by blast
  next
    case False
    then have e: "e = int (Suc N)" using e53 by simp
    have "a = 2 ^ (Suc N)" using floor_log2_top[OF a1 a2] e e_def by simp
    then have "a / 2 powi (e - int N) = of_int (2 ^ N)" using e by simp
    then show ?thesis by blast
  qed
  then obtain k where k: "a / 2 powi (e - int N) = of_int k" by blast
  have "a < 2 ^ 1024"
  proof -
    have "(2::real) ^ (Suc N) < 2 ^ 1024" unfolding N by (rule power_strict_increasing) simp_all
    then show ?thesis using a2 by linarith
  qed
  then have sm: "a < 2 powi 1024" by (simp add: power_int_def)
  show ?thesis
    by (rule number_value_exact[of _ k])
       (use n0 k sm in \<open>simp_all add: a_def[symmetric] e_def[symmetric] m\<close>)
qed

lemma number_value_of_int:
  assumes "n \<noteq> 0" "\<bar>n\<bar> \<le> 2 ^ 53"
  shows "number_value z (of_int n) = Fin (of_int n)"
proof -
  have "real_of_int \<bar>n\<bar> \<le> real_of_int (2 ^ 53)" using assms(2) by (rule iffD2[OF of_int_le_iff])
  then have "\<bar>real_of_int n\<bar> \<le> 2 ^ (Suc 52)" by simp
  then show ?thesis using number_value_of_int_gen[OF assms(1) _ refl] by blast
qed


lemma nonpos_zero_of [simp]: "nonpos (zero_of b)"
  by (simp add: zero_of_def)

lemma number_value_nonpos: "x \<le> 0 \<Longrightarrow> nonpos (number_value z x)"
proof (cases "x = 0")
  case True
  then show ?thesis by (simp add: number_value_zero)
next
  case False
  assume "x \<le> 0"
  with False have neg: "x < 0" by simp
  define q where "q = max \<lfloor>log 2 \<bar>x\<bar>\<rfloor> (- 1022) - 52"
  have "0 \<le> round_half_even (\<bar>x\<bar> / 2 powi q)"
    by (rule round_half_even_nonneg) simp
  then have "0 \<le> real_of_int (round_half_even (\<bar>x\<bar> / 2 powi q)) * 2 powi q" by simp
  then show ?thesis
    using neg unfolding number_value_def q_def[symmetric] Let_def
    by (simp add: inf_of_def zero_of_def)
qed

lemma round_half_even_ge: "of_int k \<le> s \<Longrightarrow> k \<le> round_half_even s"
proof -
  assume "of_int k \<le> s"
  then have "k \<le> \<lfloor>s\<rfloor>" by (simp add: le_floor_iff)
  then show ?thesis by (auto simp: round_half_even_def Let_def)
qed

lemma number_value_ge_1:
  assumes "1 \<le> x"
  shows "number_value z x = PInf \<or> (\<exists>y. 1 \<le> y \<and> number_value z x = Fin y)"
proof -
  define e where "e = \<lfloor>log 2 x\<rfloor>"
  have ax: "\<bar>x\<bar> = x" using assms by simp
  have e0: "0 \<le> e" unfolding e_def using assms by simp
  have "2 powr (of_int e) \<le> x"
    using floor_log_eq_powr_iff[of x 2 e] assms e_def by simp
  then have lo: "2 powi e \<le> x" by (simp add: powr_real_of_int')
  define q where "q = e - 52"
  have m: "max \<lfloor>log 2 x\<rfloor> (- 1022) - 52 = q" using e0 q_def e_def by simp
  have pe: "(2::real) powi e = 2 ^ 52 * 2 powi q"
    unfolding q_def by (simp add: power_int_diff)
  have "of_int (2 ^ 52) \<le> x / 2 powi q"
    using lo pe by (simp add: field_simps)
  then have mk: "2 ^ 52 \<le> round_half_even (x / 2 powi q)" by (rule round_half_even_ge)
  define y where "y = real_of_int (round_half_even (x / 2 powi q)) * 2 powi q"
  have "2 ^ 52 * 2 powi q \<le> y" unfolding y_def
    using mk by (intro mult_right_mono) (simp_all add: of_int_le_iff[symmetric] del: of_int_le_iff)
  then have "(2::real) powi e \<le> y" using pe by simp
  moreover have "(1::real) \<le> 2 powi e" using e0 by (simp add: one_le_power_int)
  ultimately have y1: "1 \<le> y" by linarith
  have mne: "round_half_even (x / 2 powi q) \<noteq> 0" using mk by auto
  have x0: "x \<noteq> 0" "\<not> x < 0" using assms by auto
  have "number_value z x = (if 2 powi 1024 \<le> y then PInf else Fin y)"
    unfolding number_value_def ax m Let_def y_def[symmetric]
    using x0 mne by (simp add: inf_of_def)
  then show ?thesis using y1 by auto
qed

section \<open>YearFromTime is the year of ECMA-262\<close>

text \<open>
  The closed form of \<open>YearFromTime\<close> meets the standard's definition: the first day of
  the year it returns is not after the day of \<open>t\<close>, and the first day of the next year is.
\<close>

lemma DayFromYear_period: "DayFromYear (y + 400 * e) = DayFromYear y + 146097 * e"
proof -
  have a: "(y + 400 * e - 1969) div 4 = (y - 1969) div 4 + 100 * e"
    using div_mult_self1[of 4 "y - 1969" "100 * e"] by (simp add: algebra_simps)
  have b: "(y + 400 * e - 1901) div 100 = (y - 1901) div 100 + 4 * e"
    using div_mult_self1[of 100 "y - 1901" "4 * e"] by (simp add: algebra_simps)
  have c: "(y + 400 * e - 1601) div 400 = (y - 1601) div 400 + e"
    using div_mult_self1[of 400 "y - 1601" e] by (simp add: algebra_simps)
  show ?thesis unfolding DayFromYear_def a b c by (simp add: algebra_simps)
qed

lemma div400_le_div100:
  assumes "0 \<le> (f::int)"
  shows "(f + 369) div 400 \<le> (f + 69) div 100"
proof -
  define q where "q = (f + 69) div 100"
  define m where "m = (f + 69) mod 100"
  have "f + 69 = 100 * q + m" by (simp add: q_def m_def)
  moreover have "m < 100" by (simp add: m_def)
  moreover have "0 \<le> q" using assms by (simp add: q_def)
  ultimately have "f + 369 < 400 * q + 400" by linarith
  then have "(f + 369) div 400 < q + 1" by linarith
  then show ?thesis unfolding q_def by simp
qed

lemma DayFromYear_low:
  assumes "0 \<le> r" "r < 146097"
  shows "DayFromYear (1970 + r div 366) \<le> r"
proof -
  define f where "f = r div 366"
  have f: "366 * f \<le> r" "0 \<le> f" using assms unfolding f_def by simp_all
  have a: "(f + 1) div 4 \<le> f" using f(2) by linarith
  have "DayFromYear (1970 + f) = 365 * f + (f + 1) div 4 - (f + 69) div 100 + (f + 369) div 400"
    unfolding DayFromYear_def by (simp add: add.commute)
  then have "DayFromYear (1970 + f) \<le> 366 * f"
    using a div400_le_div100[OF f(2)] by linarith
  then show ?thesis using f(1) unfolding f_def by linarith
qed

lemma DayFromYear_high:
  assumes "0 \<le> r" "r < 146097"
  shows "r < DayFromYear (1970 + r div 366 + 3)"
proof -
  define f where "f = r div 366"
  have f: "r < 366 * f + 366" "0 \<le> f" "f \<le> 399" using assms unfolding f_def by simp_all
  have a: "0 \<le> (f + 4) div 4" using f(2) by simp
  have b: "(f + 72) div 100 \<le> 4" using f(2,3) by linarith
  have c: "0 \<le> (f + 372) div 400" using f(2) by simp
  have "DayFromYear (1970 + f + 3) = 365 * f + 1095 + (f + 4) div 4 - (f + 72) div 100 + (f + 372) div 400"
    unfolding DayFromYear_def by (simp add: add.commute)
  then have "366 * f + 366 \<le> DayFromYear (1970 + f + 3)"
    using a b c f(3) by linarith
  then show ?thesis using f(1) unfolding f_def by linarith
qed

lemma YearFromTime_is_the_year:
  "DayFromYear (YearFromTime t) \<le> Day t \<and> Day t < DayFromYear (YearFromTime t + 1)"
proof -
  define d where "d = Day t"
  define e where "e = d div 146097"
  define r where "r = d mod 146097"
  have r: "0 \<le> r" "r < 146097" unfolding r_def by simp_all
  have d: "d = 146097 * e + r" unfolding e_def r_def by simp
  define y0 where "y0 = 1970 + 400 * e + r div 366"
  have "DayFromYear y0 = DayFromYear (1970 + r div 366) + 146097 * e"
    using DayFromYear_period[of "1970 + r div 366" e] by (simp add: y0_def algebra_simps)
  then have lo: "DayFromYear y0 \<le> d"
    using DayFromYear_low[OF r] d by linarith
  have "DayFromYear (y0 + 3) = DayFromYear (1970 + r div 366 + 3) + 146097 * e"
    using DayFromYear_period[of "1970 + r div 366 + 3" e] by (simp add: y0_def algebra_simps)
  then have hi: "d < DayFromYear (y0 + 3)"
    using DayFromYear_high[OF r] d by linarith
  have y: "YearFromTime t =
      (if DayFromYear (y0 + 2) \<le> d then y0 + 2 else if DayFromYear (y0 + 1) \<le> d then y0 + 1 else y0)"
    unfolding YearFromTime_def Let_def d_def[symmetric] y0_def e_def r_def ..
  have s: "y0 + 1 + 1 = y0 + 2" "y0 + 2 + 1 = y0 + 3" by simp_all
  show ?thesis
  proof (cases "DayFromYear (y0 + 2) \<le> d")
    case True
    then have "YearFromTime t = y0 + 2" using y by simp
    then show ?thesis using True hi s by (simp add: d_def add.commute)
  next
    case False
    note f2 = this
    show ?thesis
    proof (cases "DayFromYear (y0 + 1) \<le> d")
      case True
      then have "YearFromTime t = y0 + 1" using y f2 by simp
      then show ?thesis using True f2 s by (simp add: d_def add.commute)
    next
      case False
      then have "YearFromTime t = y0" using y f2 by simp
      then show ?thesis using False lo by (simp add: d_def add.commute)
    qed
  qed
qed

section \<open>The comparator on valid dates\<close>

lemma nonpos_not_gt0: "nonpos a \<Longrightarrow> \<not> js_gt a (Fin 0)"
  by (cases a) (auto simp: js_gt_def js_lt_def)


lemma js_sub_times:
  "js_sub (Fin (of_int s)) (Fin (of_int t)) = number_value False (of_int (s - t))"
  by (simp add: js_sub_def js_add_def)

lemma compare_gt_iff:
  "js_gt (js_sub (Fin (of_int s)) (Fin (of_int t))) (Fin 0) \<longleftrightarrow> t < s"
proof (cases "t < s")
  case True
  then have "1 \<le> real_of_int (s - t)" by simp
  from number_value_ge_1[OF this, of False] True show ?thesis
    unfolding js_sub_times by (auto simp: js_gt_def js_lt_def)
next
  case False
  then have "real_of_int (s - t) \<le> 0" by simp
  from number_value_nonpos[OF this, of False] False show ?thesis
    unfolding js_sub_times using nonpos_not_gt0 by blast
qed

lemma compare_not_NaN: "js_sub (Fin (of_int s)) (Fin (of_int t)) \<noteq> NaN"
proof (cases "t < s")
  case True
  then have "1 \<le> real_of_int (s - t)" by simp
  from number_value_ge_1[OF this, of False] show ?thesis
    unfolding js_sub_times by auto
next
  case False
  then have "real_of_int (s - t) \<le> 0" by simp
  from number_value_nonpos[OF this, of False] show ?thesis
    unfolding js_sub_times by auto
qed

lemma sort_test:
  assumes "date x = Some s" "date y = Some t"
  shows "js_gt (SortCompare compare_dates x y) (Fin 0) \<longleftrightarrow> t < s"
  using assms compare_gt_iff[of s t] compare_not_NaN[of s t]
  by (simp add: SortCompare_def compare_dates_def time_number_def Let_def)

section \<open>The sort is a stable sort by date\<close>

lemma mset_insert_sorted: "mset (insert_sorted cmp x ys) = add_mset x (mset ys)"
  by (induction ys) auto

lemma mset_array_sort: "mset (array_sort cmp xs) = mset xs"
  unfolding array_sort_def by (induction xs) (auto simp: mset_insert_sorted)

lemma set_array_sort: "set (array_sort cmp xs) = set xs"
  using mset_array_sort[of cmp xs] by (metis set_mset_mset)

lemma date_le_trans: "date_le a b \<Longrightarrow> date_le b c \<Longrightarrow> date_le a c"
  by (auto simp: date_le_def split: option.splits)

lemma sorted_insert_sorted:
  assumes "date x \<noteq> None" "\<forall>y\<in>set ys. date y \<noteq> None" "sorted_wrt date_le ys"
  shows "sorted_wrt date_le (insert_sorted compare_dates x ys)"
  using assms
proof (induction ys)
  case Nil
  then show ?case by simp
next
  case (Cons y ys)
  from Cons.prems obtain s t where st: "date x = Some s" "date y = Some t" by auto
  show ?case
  proof (cases "t < s")
    case True
    have "\<forall>z\<in>set (insert_sorted compare_dates x ys). date_le y z"
    proof
      fix z assume "z \<in> set (insert_sorted compare_dates x ys)"
      then have "z \<in># mset (insert_sorted compare_dates x ys)" by simp
      then have "z = x \<or> z \<in> set ys" by (simp add: mset_insert_sorted)
      then show "date_le y z" using Cons.prems(3) True st by (auto simp: date_le_def)
    qed
    then show ?thesis using Cons True st by (simp add: sort_test)
  next
    case False
    have xy: "date_le x y" using False st by (simp add: date_le_def)
    have "\<forall>z\<in>set ys. date_le x z"
      using Cons.prems(3) xy date_le_trans by auto
    then show ?thesis using Cons.prems(3) False st xy by (simp add: sort_test)
  qed
qed

lemma sorted_array_sort:
  "\<forall>y\<in>set xs. date y \<noteq> None \<Longrightarrow> sorted_wrt date_le (array_sort compare_dates xs)"
proof (induction xs)
  case Nil
  then show ?case by (simp add: array_sort_def)
next
  case (Cons x xs)
  have "sorted_wrt date_le (insert_sorted compare_dates x (array_sort compare_dates xs))"
    using Cons by (intro sorted_insert_sorted) (auto simp: set_array_sort)
  then show ?case by (simp add: array_sort_def)
qed

lemma filter_insert_sorted:
  assumes "date x \<noteq> None" "\<forall>y\<in>set ys. date y \<noteq> None"
  shows "filter (\<lambda>r. date r = d) (insert_sorted compare_dates x ys) =
         (if date x = d then x # filter (\<lambda>r. date r = d) ys else filter (\<lambda>r. date r = d) ys)"
  using assms
proof (induction ys)
  case Nil
  then show ?case by simp
next
  case (Cons y ys)
  from Cons.prems obtain s t where st: "date x = Some s" "date y = Some t" by auto
  show ?case using Cons st by (auto simp: sort_test)
qed

lemma stable_array_sort:
  "\<forall>y\<in>set xs. date y \<noteq> None \<Longrightarrow>
   filter (\<lambda>r. date r = d) (array_sort compare_dates xs) = filter (\<lambda>r. date r = d) xs"
proof (induction xs)
  case Nil
  then show ?case by (simp add: array_sort_def)
next
  case (Cons x xs)
  have "filter (\<lambda>r. date r = d) (insert_sorted compare_dates x (array_sort compare_dates xs)) =
        (if date x = d then x # filter (\<lambda>r. date r = d) (array_sort compare_dates xs)
         else filter (\<lambda>r. date r = d) (array_sort compare_dates xs))"
    using Cons.prems by (intro filter_insert_sorted) (auto simp: set_array_sort)
  then show ?case using Cons by (simp add: array_sort_def)
qed

lemma keep_row_date: "keep_row r \<Longrightarrow> date r \<noteq> None"
  by (cases "date r") (auto simp: keep_row_def isNaN_def time_number_def)

lemma keep_row_iff: "keep_row (to_row env r) \<longleftrightarrow> date_valid env r \<and> nav_number r \<noteq> NaN"
  by (auto simp: keep_row_def isNaN_def time_number_def to_row_def date_valid_def nav_number_def
      split: option.splits)

lemma parseSheetData_eq:
  "parseSheetData env raw = array_sort compare_dates (filter keep_row (map (to_row env) raw))"
  by (simp add: parseSheetData_def array_sort_def)

section \<open>Evaluating the model on concrete inputs\<close>

lemma number_value_numeral:
  "(numeral k :: int) \<le> 2 ^ 53 \<Longrightarrow> number_value z (numeral k) = Fin (numeral k)"
  using number_value_of_int[of "numeral k" z] by simp

lemma number_value_neg_numeral:
  "(numeral k :: int) \<le> 2 ^ 53 \<Longrightarrow> number_value z (- numeral k) = Fin (- numeral k)"
  using number_value_of_int[of "- numeral k" z] by simp

lemma number_value_one: "number_value z 1 = Fin 1"
  using number_value_of_int[of 1 z] by simp

lemma prop_of_raw_rec: "prop_of (raw_rec d n) ''Date'' = d" "prop_of (raw_rec d n) ''Nav'' = n"
  by (simp_all add: prop_of_def raw_rec_def)

lemma to_row_raw_rec: "to_row env (raw_rec d n) = \<lparr>date = NewDate env d, nav = ToNumber n\<rparr>"
  by (simp add: to_row_def prop_of_raw_rec)

lemma NewDate_num: "NewDate env (JNum x) = TimeClip x"
  by (simp add: NewDate_def)

lemma StringToNumber_Infinity: "StringToNumber ''Infinity'' = PInf"
  by (simp add: StringToNumber_def trim_def is_ws_def Let_def inf_of_def)

lemma StringToNumber_abc: "StringToNumber ''abc'' = NaN"
  by (simp add: StringToNumber_def trim_def is_ws_def parse_unsigned_decimal_def is_digit_def Let_def)

section \<open>The equity loop, and computeSeries on valid dates\<close>

lemma parseSheetData_all_dropped:
  assumes "\<forall>r\<in>set raw. \<not> (date_valid env r \<and> nav_number r \<noteq> NaN)"
  shows "parseSheetData env raw = []"
proof -
  have "filter keep_row (map (to_row env) raw) = []"
    using assms by (auto simp: filter_empty_conv keep_row_iff)
  then show ?thesis by (simp add: parseSheetData_eq array_sort_def)
qed

lemma js_div_self: "x \<noteq> 0 \<Longrightarrow> js_div (Fin x) (Fin x) = Fin 1"
  by (simp add: js_div_def number_value_one)

lemma js_mul_1_100: "js_mul (Fin 1) (Fin 100) = Fin 100"
  by (simp add: js_mul_def number_value_numeral)

lemma equity_loop_valid:
  assumes "\<forall>r\<in>set rows. date r \<noteq> None"
  shows "\<exists>eq. equity_loop base rows = Inr eq \<and>
     map ep_value eq = map (\<lambda>r. fixed2 (js_mul (js_div (nav r) base) (Fin 100))) rows"
  using assms
proof (induction rows)
  case Nil
  then show ?case by simp
next
  case (Cons r rows)
  then obtain eq where eq: "equity_loop base rows = Inr eq"
    "map ep_value eq = map (\<lambda>r. fixed2 (js_mul (js_div (nav r) base) (Fin 100))) rows" by auto
  from Cons.prems obtain t where "date r = Some t" by auto
  then show ?case using eq by (simp add: equity_point_of_def)
qed

lemma computeSeries_valid:
  assumes "\<forall>r\<in>set rows. date r \<noteq> None"
  shows "\<exists>res. computeSeries env rows = Inr res \<and>
     map ep_value (equity res) =
       map (\<lambda>r. fixed2 (js_mul (js_div (nav r) (nav (hd rows))) (Fin 100))) rows \<and>
     drawdown res = drawdown_loop NInf (equity res) \<and>
     monthReturnsByYear res =
       fold (month_step env (byMonth_loop env rows)) (keysSorted (byMonth_loop env rows)) Map.empty"
proof (cases "rows = []")
  case True
  then show ?thesis by (simp add: computeSeries_def byMonth_loop_def keysSorted_def)
next
  case False
  from equity_loop_valid[OF assms, of "nav (hd rows)"] obtain eq where
    "equity_loop (nav (hd rows)) rows = Inr eq"
    "map ep_value eq = map (\<lambda>r. fixed2 (js_mul (js_div (nav r) (nav (hd rows))) (Fin 100))) rows"
    by blast
  then show ?thesis using False by (simp add: computeSeries_def Let_def)
qed

section \<open>Rules for evaluating dates and keys, and the buckets\<close>

lemmas calendar_defs = YearFromTime_def Day_def msPerDay_def DayFromYear_def MonthFromTime_def
  DayWithinYear_def InLeapYear_def DaysInYear_def DateFromTime_def LocalTime_def

lemmas key_defs = monthKey_def getFullYear_def getMonth_def NumberToString_def show_int_def
  digit_char_def padStart2_def js_add_def

lemma utc_env_simps:
  "LocalTZA utc_env t = 0" "DateParse utc_env s = None"
  by (simp_all add: utc_env_def)

lemma StringToNumber_neg_Infinity: "StringToNumber ''-Infinity'' = NInf"
  by (simp add: StringToNumber_def trim_def is_ws_def Let_def inf_of_def)

lemma map_of_byMonth_fold:
  "map_of (fold (\<lambda>r bm. AList.update (f r) (g r) bm) rows bm0) =
   fold (\<lambda>r m. m(f r \<mapsto> g r)) rows (map_of bm0)"
  by (induction rows arbitrary: bm0) (simp_all add: update_conv')

lemma fold_upd_other:
  "\<forall>r\<in>set ys. f r \<noteq> k \<Longrightarrow> fold (\<lambda>r m. m(f r \<mapsto> g r)) ys m k = m k"
  by (induction ys arbitrary: m) auto

lemma monthKey_may_1: "monthKey utc_env \<lparr>date = Some 1682899200000, nav = x\<rparr> = ''2023-05''"
  by (simp add: key_defs calendar_defs utc_env_simps number_value_numeral)

lemma monthKey_may_31: "monthKey utc_env \<lparr>date = Some 1685491200000, nav = x\<rparr> = ''2023-05''"
  by (simp add: key_defs calendar_defs utc_env_simps number_value_numeral)

section \<open>The drawdown loop\<close>






lemma drawdown_value_at_peak:
  assumes "0 < p"
  shows "fixed2 (js_mul (js_div (js_sub (Fin p) (Fin p)) (Fin p)) (Fin 100)) = Fin 0"
proof -
  have "js_sub (Fin p) (Fin p) = Fin 0"
    using assms by (simp add: js_sub_def js_add_def number_value_zero zero_of_def)
  moreover have "js_div (Fin 0) (Fin p) = Fin 0"
    using assms by (simp add: js_div_def number_value_zero zero_of_def)
  moreover have "js_mul (Fin 0) (Fin 100) = Fin 0"
    by (simp add: js_mul_def number_value_zero zero_of_def)
  ultimately show ?thesis by (simp add: number_value_zero zero_of_def)
qed

text \<open>One step of the loop from a positive finite peak.\<close>

lemma peak_step:
  assumes "0 < p" "v \<noteq> NaN" "v \<noteq> PInf"
  obtains (up) x where "js_gt v (Fin p)" "p < x" "v = Fin x"
    | (hold) "\<not> js_gt v (Fin p)" "v = NInf \<or> v = NZero \<or> (\<exists>x\<le>p. v = Fin x)"
  using assms by (cases v) (auto simp: js_gt_def js_lt_def)

lemma length_drawdown_loop: "length (drawdown_loop peak pts) = length pts"
  by (induction pts arbitrary: peak) (simp_all add: Let_def)


lemma drawdown_loop_zero_at_maximum:
  assumes "0 < p" "\<forall>pt\<in>set pts. ep_value pt \<noteq> NaN \<and> ep_value pt \<noteq> PInf"
    and "i < length pts"
    and "\<forall>j<i. js_le (ep_value (pts ! j)) (ep_value (pts ! i))"
    and "js_le (Fin p) (ep_value (pts ! i))"
  shows "dp_drawdown (drawdown_loop (Fin p) pts ! i) = Fin 0"
  using assms
proof (induction pts arbitrary: p i)
  case Nil
  then show ?case by simp
next
  case (Cons pt pts)
  let ?v = "ep_value pt"
  from Cons.prems have v: "?v \<noteq> NaN" "?v \<noteq> PInf" by auto
  show ?case
  proof (cases i)
    case 0
    from Cons.prems(1) v show ?thesis
    proof (cases rule: peak_step)
      case (up x)
      note gt = up(1) and x = up(2,3)
      have x0: "0 < x" using x(1) Cons.prems(1) by simp
      show ?thesis using 0 gt x(2) drawdown_value_at_peak[OF x0] by (simp add: Let_def)
    next
      case hold
      note ngt = hold(1) and below = hold(2)
      from Cons.prems(5) 0 have "js_le (Fin p) ?v" by simp
      with below Cons.prems(1) have "?v = Fin p"
        by (auto simp: js_le_def js_lt_def)
      then show ?thesis
        using 0 ngt drawdown_value_at_peak[OF Cons.prems(1)] by (simp add: Let_def)
    qed
  next
    case (Suc k)
    have k: "k < length pts" using Cons.prems(3) Suc by simp
    have le_prev: "\<forall>j<k. js_le (ep_value (pts ! j)) (ep_value (pts ! k))"
    proof (intro allI impI)
      fix j assume "j < k"
      then have "Suc j < i" using Suc by simp
      from Cons.prems(4)[rule_format, OF this] show "js_le (ep_value (pts ! j)) (ep_value (pts ! k))"
        using Suc by simp
    qed
    have le_first: "js_le ?v (ep_value (pts ! k))"
      using Cons.prems(4)[rule_format, of 0] Suc by simp
    have le_peak: "js_le (Fin p) (ep_value (pts ! k))"
      using Cons.prems(5) Suc by simp
    have rest: "\<forall>pt\<in>set pts. ep_value pt \<noteq> NaN \<and> ep_value pt \<noteq> PInf"
      using Cons.prems(2) by simp
    from Cons.prems(1) v show ?thesis
    proof (cases rule: peak_step)
      case (up x)
      note gt = up(1) and x = up(2,3)
      have x0: "0 < x" using x(1) Cons.prems(1) by simp
      have "dp_drawdown (drawdown_loop (Fin x) pts ! k) = Fin 0"
        using Cons.IH[OF x0 rest k le_prev] le_first x(2) by simp
      then show ?thesis using Suc gt x(2) by (simp add: Let_def)
    next
      case hold
      note ngt = hold(1)
      have "dp_drawdown (drawdown_loop (Fin p) pts ! k) = Fin 0"
        using Cons.IH[OF Cons.prems(1) rest k le_prev le_peak] .
      then show ?thesis using Suc ngt by (simp add: Let_def)
    qed
  qed
qed

lemma first_value_cases:
  "fixed2 (js_mul (js_div b b) (Fin 100)) = NaN \<or> fixed2 (js_mul (js_div b b) (Fin 100)) = Fin 100"
proof (cases b)
  case (Fin x)
  show ?thesis
  proof (cases "x = 0")
    case True
    then show ?thesis using Fin by (simp add: js_div_def js_mul_def)
  next
    case False
    then show ?thesis using Fin by (simp add: js_div_self js_mul_1_100 number_value_numeral)
  qed
qed (simp_all add: js_div_def js_mul_def)

lemma first_step_from_NInf:
  assumes "ep_value pt = Fin 100"
  shows "drawdown_loop NInf (pt # pts) =
         \<lparr>dp_date = ep_date pt, dp_drawdown = Fin 0\<rparr> # drawdown_loop (Fin 100) pts"
proof -
  have "js_gt (Fin 100) NInf" by (simp add: js_gt_def js_lt_def)
  then show ?thesis
    using assms drawdown_value_at_peak[of 100] by (simp add: Let_def)
qed

text \<open>The shape of the equity series when no value is NaN.\<close>

lemma equity_starts_at_100:
  assumes "computeSeries env rows = Inr res"
    and "map ep_value (equity res) =
       map (\<lambda>r. fixed2 (js_mul (js_div (nav r) (nav (hd rows))) (Fin 100))) rows"
    and "\<forall>p\<in>set (equity res). ep_value p \<noteq> NaN \<and> ep_value p \<noteq> PInf"
  shows "equity res = [] \<or> (\<exists>pt pts. equity res = pt # pts \<and> ep_value pt = Fin 100)"
proof (cases "equity res")
  case Nil
  then show ?thesis by simp
next
  case (Cons pt pts)
  with assms(2) obtain r rs where rows: "rows = r # rs" by (cases rows) auto
  have "ep_value pt = fixed2 (js_mul (js_div (nav r) (nav r)) (Fin 100))"
    using assms(2) Cons rows by simp
  moreover have "ep_value pt \<noteq> NaN" using assms(3) Cons by simp
  ultimately have "ep_value pt = Fin 100" using first_value_cases[of "nav r"] by auto
  then show ?thesis using Cons by simp
qed

section \<open>Worked examples\<close>

lemmas number_defs = js_add_def js_sub_def js_mul_def js_div_def js_gt_def js_lt_def js_le_def
  js_strict_eq_def truthy_def zero_of_def inf_of_def number_value_zero number_value_numeral
  number_value_neg_numeral number_value_one

lemmas string_defs = StringToNumber_def trim_def is_ws_def parse_unsigned_decimal_def is_digit_def
  parse_exponent_def dec_val_def digit_val_def all_digits_def NumberToString_def show_int_def
  digit_char_def padStart2_def pad_left_def

lemmas series_defs = computeSeries_def equity_point_of_def iso_date10_def iso_year_def
  byMonth_loop_def keysSorted_def month_step_def month_ret_def prevKey_def key_year_def
  key_month_def monthKey_def getFullYear_def getMonth_def

lemma tie_example:
  "computeSeries utc_env
     [\<lparr>date = Some 1675123200000, nav = Fin 100\<rparr>, \<lparr>date = Some 1677542400000, nav = Fin 100\<rparr>] =
   Inr \<lparr>equity = [\<lparr>ep_date = ''2023-01-31'', ep_value = Fin 100\<rparr>,
                   \<lparr>ep_date = ''2023-02-28'', ep_value = Fin 100\<rparr>],
        drawdown = [\<lparr>dp_date = ''2023-01-31'', dp_drawdown = Fin 0\<rparr>,
                    \<lparr>dp_date = ''2023-02-28'', dp_drawdown = Fin 0\<rparr>],
        monthReturnsByYear =
          [''2023'' \<mapsto> [\<lparr>mr_month = JStr ''01'', mr_ret = None\<rparr>,
                         \<lparr>mr_month = JStr ''02'', mr_ret = Some (Fin 0)\<rparr>]]\<rparr>"
  by (simp add: series_defs number_defs string_defs calendar_defs utc_env_simps Let_def)


lemma equity_values_example:
  assumes "computeSeries env [\<lparr>date = Some s, nav = Fin 100\<rparr>, \<lparr>date = Some t, nav = Fin 200\<rparr>,
             \<lparr>date = Some u, nav = Fin c\<rparr>] = Inr res" and "c = 100 \<or> c = 200"
  shows "map ep_value (equity res) = [Fin 100, Fin 200, Fin c]"
proof -
  let ?rows = "[\<lparr>date = Some s, nav = Fin 100\<rparr>, \<lparr>date = Some t, nav = Fin 200\<rparr>,
             \<lparr>date = Some u, nav = Fin c\<rparr>]"
  have "\<forall>r\<in>set ?rows. date r \<noteq> None" by simp
  from computeSeries_valid[OF this, of env] assms(1) have
    "map ep_value (equity res) =
       map (\<lambda>r. fixed2 (js_mul (js_div (nav r) (nav (hd ?rows))) (Fin 100))) ?rows"
    by auto
  then show ?thesis using assms(2)
    by (auto simp: js_div_def js_mul_def number_value_numeral number_value_one)
qed

section \<open>Decimal numerals\<close>

lemma digit_cases:
  assumes "d < (10::nat)"
  obtains "d = 0" | "d = 1" | "d = 2" | "d = 3" | "d = 4" | "d = 5" | "d = 6" | "d = 7"
    | "d = 8" | "d = 9"
proof -
  have "d = 0 \<or> d = 1 \<or> d = 2 \<or> d = 3 \<or> d = 4 \<or> d = 5 \<or> d = 6 \<or> d = 7 \<or> d = 8 \<or> d = 9"
    using assms by arith
  then show ?thesis using that by blast
qed

lemma digit_char_props:
  assumes "d < 10"
  shows "is_digit (digit_char d)" "digit_val (digit_char d) = d" "digit_char d \<noteq> CHR ''-''"
    "\<not> is_ws (digit_char d)"
  using assms
  by (cases d rule: digit_cases; simp add: digit_char_def is_digit_def digit_val_def is_ws_def)+

lemma is_digit_props:
  assumes "is_digit c"
  shows "c \<noteq> CHR ''-''" "c \<noteq> CHR ''+''" "c \<noteq> CHR ''.''" "\<not> is_ws c" "c \<noteq> CHR ''I''"
    "c \<noteq> CHR ''x''" "c \<noteq> CHR ''X''" "c \<noteq> CHR ''o''" "c \<noteq> CHR ''O''" "c \<noteq> CHR ''b''" "c \<noteq> CHR ''B''"
  using assms by (auto simp: is_digit_def is_ws_def)

declare digits_of.simps [simp del]

lemma digits_of_all_digits: "list_all is_digit (digits_of n) \<and> digits_of n \<noteq> []"
proof (induction n rule: digits_of.induct)
  case (1 n)
  show ?case
  proof (cases "n < 10")
    case True
    then show ?thesis by (simp add: digits_of.simps[of n] digit_char_props)
  next
    case False
    then have "list_all is_digit (digits_of (n div 10))" using 1 by simp
    moreover have "is_digit (digit_char (n mod 10))" by (simp add: digit_char_props)
    ultimately show ?thesis using False by (simp add: digits_of.simps[of n])
  qed
qed

lemma dec_val_snoc: "dec_val (ds @ [c]) = 10 * dec_val ds + digit_val c"
  by (simp add: dec_val_def)

lemma dec_val_digits_of: "dec_val (digits_of n) = n"
proof (induction n rule: digits_of.induct)
  case (1 n)
  show ?case
  proof (cases "n < 10")
    case True
    then show ?thesis by (subst digits_of.simps) (simp add: dec_val_def digit_char_props)
  next
    case False
    then have "dec_val (digits_of (n div 10)) = n div 10" using 1 by simp
    then show ?thesis using False
      by (subst digits_of.simps) (simp add: dec_val_snoc digit_char_props)
  qed
qed

lemma all_digits_digits_of: "all_digits (digits_of n)"
  using digits_of_all_digits by (simp add: all_digits_def)

lemma all_digits_no_dash: "all_digits s \<Longrightarrow> CHR ''-'' \<notin> set s"
  using is_digit_props(1) by (auto simp: all_digits_def list_all_iff)

section \<open>StringToNumber on a string of digits\<close>

lemma dropWhile_id: "s \<noteq> [] \<Longrightarrow> \<not> P (hd s) \<Longrightarrow> dropWhile P s = s"
  by (cases s) simp_all

lemma trim_digits:
  assumes "all_digits s"
  shows "trim s = s"
proof -
  from assms have ne: "s \<noteq> []" and dg: "\<forall>c\<in>set s. is_digit c"
    by (auto simp: all_digits_def list_all_iff)
  have "\<not> is_ws (hd s)" using ne dg is_digit_props(4) by (cases s) auto
  then have a: "dropWhile is_ws s = s" using ne by (rule dropWhile_id[rotated])
  have "hd (rev s) \<in> set s" using ne by (metis hd_rev last_in_set)
  then have "\<not> is_ws (hd (rev s))" using dg is_digit_props(4) by blast
  then have "dropWhile is_ws (rev s) = rev s" using ne by (intro dropWhile_id) simp_all
  then show ?thesis by (simp add: trim_def a)
qed

lemma take2_digits:
  assumes "all_digits s" "take 2 s = [c, d]"
  shows "is_digit d"
proof -
  from assms(1) have dg: "\<forall>c\<in>set s. is_digit c" by (auto simp: all_digits_def list_all_iff)
  have "d \<in> set (take 2 s)" using assms(2) by simp
  then have "d \<in> set s" by (rule in_set_takeD)
  then show ?thesis using dg by blast
qed

lemma StringToNumber_digits:
  assumes "all_digits s"
  shows "StringToNumber s = number_value False (real (dec_val s))"
proof -
  from assms have ne: "s \<noteq> []" and dg: "\<forall>c\<in>set s. is_digit c"
    by (auto simp: all_digits_def list_all_iff)
  have hd: "is_digit (hd s)" using ne dg by (cases s) auto
  have no_prefix: "take 2 s \<noteq> ''0x''" "take 2 s \<noteq> ''0X''" "take 2 s \<noteq> ''0o''"
    "take 2 s \<noteq> ''0O''" "take 2 s \<noteq> ''0b''" "take 2 s \<noteq> ''0B''"
    by (auto dest!: take2_digits[OF assms] simp: is_digit_def)
  have sign: "hd s \<noteq> CHR ''-''" "hd s \<noteq> CHR ''+''" using hd is_digit_props by blast+
  have inf: "s \<noteq> ''Infinity''" using hd by (auto simp: is_digit_def)
  have tw: "takeWhile is_digit s = s" "dropWhile is_digit s = []" using dg by simp_all
  have "parse_unsigned_decimal s = Some (real (dec_val s))"
    using ne by (simp add: parse_unsigned_decimal_def tw parse_exponent_def dec_val_def)
  then show ?thesis
    unfolding StringToNumber_def trim_digits[OF assms] Let_def
    by (simp only: ne no_prefix sign inf if_False simp_thms option.case)
qed

section \<open>Splitting a key\<close>

lemma split_on_no_sep: "c \<notin> set s \<Longrightarrow> split_on c s = [s]"
  by (induction s) auto

lemma split_on_append:
  "c \<notin> set a \<Longrightarrow> split_on c (a @ c # b) = a # split_on c b"
  by (induction a) auto

section \<open>Month keys\<close>

lemma number_value_int:
  assumes "\<bar>n\<bar> \<le> 9007199254740992"
  shows "number_value False (of_int n) = Fin (of_int n)"
proof (cases "n = 0")
  case True
  then show ?thesis by (simp add: number_value_zero zero_of_def)
next
  case False
  have "\<bar>n\<bar> \<le> 2 ^ 53" using assms by simp
  with False show ?thesis by (rule number_value_of_int)
qed

lemma NumberToString_int:
  assumes "\<bar>n\<bar> < 1000000000000000000000"
  shows "NumberToString env (Fin (of_int n)) = show_int n"
proof -
  have "\<bar>real_of_int n\<bar> = real_of_int \<bar>n\<bar>" by simp
  also have "\<dots> < real_of_int 1000000000000000000000" using assms by (simp only: of_int_less_iff)
  finally have "\<bar>real_of_int n\<bar> < 10 ^ 21" by simp
  then show ?thesis by (simp add: NumberToString_def)
qed

lemma MonthFromTime_range: "0 \<le> MonthFromTime t \<and> MonthFromTime t \<le> 11"
  by (simp add: MonthFromTime_def Let_def)

lemma year_bound:
  assumes "\<bar>t\<bar> \<le> 8640000000000000 + 86400000"
  shows "\<bar>YearFromTime t\<bar> \<le> 276371"
proof -
  define d where "d = Day t"
  have d: "- 100000001 \<le> d" "d \<le> 100000001"
    using assms unfolding d_def Day_def msPerDay_def by linarith+
  define e where "e = d div 146097"
  define f where "f = (d mod 146097) div 366"
  have e: "- 685 \<le> e" "e \<le> 684" using d unfolding e_def by linarith+
  have f: "0 \<le> f" "f \<le> 399" unfolding f_def
    by (simp_all add: pos_imp_zdiv_nonneg_iff)
  define y0 where "y0 = 1970 + 400 * e + f"
  have y0: "- 272030 \<le> y0" "y0 \<le> 275969" using e f unfolding y0_def by linarith+
  have "YearFromTime t = y0 \<or> YearFromTime t = y0 + 1 \<or> YearFromTime t = y0 + 2"
    unfolding YearFromTime_def Let_def d_def[symmetric] y0_def e_def f_def by auto
  then show ?thesis using y0 by linarith
qed

lemma local_year_bound:
  assumes "valid_series rows" "zone_ok env" "r \<in> set rows"
  obtains t where "date r = Some t" "\<bar>YearFromTime (LocalTime env t)\<bar> \<le> 276371"
proof -
  from assms(1,3) obtain t where t: "date r = Some t" "\<bar>t\<bar> \<le> 8640000000000000"
    by (auto simp: valid_series_def)
  have "\<bar>LocalTZA env t\<bar> \<le> 86400000" using assms(2) by (simp add: zone_ok_def msPerDay_def)
  then have "\<bar>LocalTime env t\<bar> \<le> 8640000000000000 + 86400000"
    using t(2) unfolding LocalTime_def by linarith
  from year_bound[OF this] t(1) that show ?thesis by blast
qed

lemma monthKey_form:
  assumes "date r = Some t" "\<bar>YearFromTime (LocalTime env t)\<bar> \<le> 276371"
  shows "monthKey env r =
         month_key (YearFromTime (LocalTime env t)) (MonthFromTime (LocalTime env t) + 1)"
proof -
  define y where "y = YearFromTime (LocalTime env t)"
  define m0 where "m0 = MonthFromTime (LocalTime env t)"
  have m0: "0 \<le> m0" "m0 \<le> 11" using MonthFromTime_range[of "LocalTime env t"] by (simp_all add: m0_def)
  have "js_add (Fin (of_int m0)) (Fin 1) = number_value False (of_int (m0 + 1))"
    by (simp add: js_add_def)
  also have "\<dots> = Fin (of_int (m0 + 1))" using m0 by (intro number_value_int) linarith
  finally have add: "js_add (Fin (of_int m0)) (Fin 1) = Fin (of_int (m0 + 1))" .
  have ys: "NumberToString env (Fin (of_int y)) = show_int y"
    using assms(2) by (intro NumberToString_int) (simp add: y_def)
  have ms: "NumberToString env (Fin (of_int (m0 + 1))) = show_int (m0 + 1)"
    using m0 by (intro NumberToString_int) linarith
  have "monthKey env r =
      NumberToString env (Fin (of_int y)) @ ''-'' @
      padStart2 (NumberToString env (js_add (Fin (of_int m0)) (Fin 1)))"
    using assms(1) by (simp add: monthKey_def getFullYear_def getMonth_def y_def m0_def Let_def)
  also have "\<dots> = month_key y (m0 + 1)"
    unfolding add ys ms month_key_def ..
  finally show ?thesis unfolding y_def m0_def .
qed

lemma month_cases:
  assumes "1 \<le> m" "m \<le> (12::int)"
  obtains "m = 1" | "m = 2" | "m = 3" | "m = 4" | "m = 5" | "m = 6" | "m = 7" | "m = 8"
    | "m = 9" | "m = 10" | "m = 11" | "m = 12"
proof -
  have "m = 1 \<or> m = 2 \<or> m = 3 \<or> m = 4 \<or> m = 5 \<or> m = 6 \<or> m = 7 \<or> m = 8 \<or> m = 9 \<or> m = 10
      \<or> m = 11 \<or> m = 12"
    using assms by arith
  then show ?thesis using that by blast
qed

lemma pad2_month:
  assumes "0 \<le> m" "m \<le> (12::int)"
  shows "all_digits (padStart2 (show_int m))" "dec_val (padStart2 (show_int m)) = nat m"
    "length (padStart2 (show_int m)) = 2"
proof -
  consider "m = 0" | "1 \<le> m" using assms(1) by linarith
  then have "all_digits (padStart2 (show_int m)) \<and> dec_val (padStart2 (show_int m)) = nat m
      \<and> length (padStart2 (show_int m)) = 2"
  proof cases
    case 1
    then show ?thesis
      by (simp add: padStart2_def show_int_def digits_of.simps digit_char_def all_digits_def
          is_digit_def dec_val_def digit_val_def)
  next
    case 2
    from this assms(2) show ?thesis
      by (cases m rule: month_cases;
          simp add: padStart2_def show_int_def digits_of.simps digit_char_def all_digits_def
            is_digit_def dec_val_def digit_val_def)
  qed
  then show "all_digits (padStart2 (show_int m))" "dec_val (padStart2 (show_int m)) = nat m"
    "length (padStart2 (show_int m)) = 2" by simp_all
qed

lemma show_int_nonneg: "0 \<le> y \<Longrightarrow> show_int y = digits_of (nat y)"
  by (simp add: show_int_def)

lemma key_parts_nonneg:
  assumes "0 \<le> y" "1 \<le> m" "m \<le> 12"
  shows "key_year (month_key y m) = show_int y"
    and "key_month (month_key y m) = JStr (padStart2 (show_int m))"
proof -
  have a: "CHR ''-'' \<notin> set (show_int y)"
    using assms(1) all_digits_no_dash[OF all_digits_digits_of] by (simp add: show_int_nonneg)
  have b: "CHR ''-'' \<notin> set (padStart2 (show_int m))"
    using pad2_month(1)[of m] assms by (intro all_digits_no_dash) simp_all
  have "split_on CHR ''-'' (month_key y m) = [show_int y, padStart2 (show_int m)]"
    by (simp add: month_key_def split_on_append[OF a] split_on_no_sep[OF b])
  then show "key_year (month_key y m) = show_int y"
    and "key_month (month_key y m) = JStr (padStart2 (show_int m))"
    by (simp_all add: key_year_def key_month_def)
qed

lemma key_year_neg: "y < 0 \<Longrightarrow> key_year (month_key y m) = []"
  by (simp add: key_year_def month_key_def show_int_def)

lemma StringToNumber_month:
  assumes "1 \<le> m" "m \<le> 12"
  shows "StringToNumber (padStart2 (show_int m)) = Fin (of_int m)"
proof -
  have "StringToNumber (padStart2 (show_int m)) = number_value False (real (nat m))"
    using pad2_month[of m] assms by (simp add: StringToNumber_digits)
  also have "real (nat m) = of_int m" using assms by simp
  also have "number_value False (of_int m) = Fin (of_int m)"
    using assms by (intro number_value_int) linarith
  finally show ?thesis .
qed

lemma StringToNumber_year:
  assumes "0 \<le> y" "y \<le> 9007199254740992"
  shows "StringToNumber (show_int y) = Fin (of_int y)"
proof -
  have "StringToNumber (show_int y) = number_value False (real (nat y))"
    using assms(1) by (simp add: show_int_nonneg StringToNumber_digits all_digits_digits_of dec_val_digits_of)
  also have "real (nat y) = of_int y" using assms by simp
  also have "number_value False (of_int y) = Fin (of_int y)"
    using assms by (intro number_value_int) linarith
  finally show ?thesis .
qed

lemma js_sub_one_int:
  assumes "\<bar>n\<bar> \<le> 9007199254740991"
  shows "js_sub (Fin (of_int n)) (Fin 1) = Fin (of_int (n - 1))"
proof -
  have "js_sub (Fin (of_int n)) (Fin 1) = number_value False (of_int (n - 1))"
    by (simp add: js_sub_def js_add_def)
  also have "\<dots> = Fin (of_int (n - 1))" using assms by (intro number_value_int) linarith
  finally show ?thesis .
qed

lemma prevKey_month_key:
  assumes "0 \<le> y" "y \<le> 276371" "1 \<le> m" "m \<le> 12"
  shows "prevKey env (month_key y m) = preceding_key y m"
proof -
  note parts = key_parts_nonneg[OF assms(1,3,4)]
  have mm: "ToNumber (JStr (padStart2 (show_int m))) = Fin (of_int m)"
    using StringToNumber_month[OF assms(3,4)] by simp
  have eq1: "js_strict_eq (Fin (real_of_int m)) (Fin 1) \<longleftrightarrow> m = 1"
    by (simp add: js_strict_eq_def)
  have unfold: "prevKey env (month_key y m) =
      (if m = 1 then NumberToString env (js_sub (StringToNumber (show_int y)) (Fin 1)) @ ''-12''
       else show_int y @ ''-'' @ padStart2 (NumberToString env (js_sub (Fin (of_int m)) (Fin 1))))"
    unfolding prevKey_def Let_def mm parts eq1 ..
  show ?thesis
  proof (cases "m = 1")
    case True
    have a: "StringToNumber (show_int y) = Fin (of_int y)"
      using assms(1,2) by (intro StringToNumber_year) linarith+
    have b: "js_sub (Fin (of_int y)) (Fin 1) = Fin (of_int (y - 1))"
      using assms(1,2) by (intro js_sub_one_int) linarith
    have c: "NumberToString env (Fin (of_int (y - 1))) = show_int (y - 1)"
      using assms(1,2) by (intro NumberToString_int) linarith
    have d: "padStart2 (show_int 12) = ''12''"
      by (simp add: padStart2_def show_int_def digits_of.simps digit_char_def)
    have "prevKey env (month_key y m) = show_int (y - 1) @ ''-12''"
      unfolding unfold a b c using True by simp
    also have "\<dots> = preceding_key y m"
      using True by (simp add: preceding_key_def month_key_def d)
    finally show ?thesis .
  next
    case False
    have b: "js_sub (Fin (of_int m)) (Fin 1) = Fin (of_int (m - 1))"
      using assms(3,4) by (intro js_sub_one_int) linarith
    have c: "NumberToString env (Fin (of_int (m - 1))) = show_int (m - 1)"
      using assms(3,4) by (intro NumberToString_int) linarith
    have "prevKey env (month_key y m) = show_int y @ ''-'' @ padStart2 (show_int (m - 1))"
      unfolding unfold b c using False by simp
    also have "\<dots> = preceding_key y m"
      using False by (simp add: preceding_key_def month_key_def)
    finally show ?thesis .
  qed
qed

section \<open>The buckets and the loop over the sorted keys\<close>

lemma keys_of_fold_update:
  "fst ` set (fold (\<lambda>r bm. AList.update (f r) (g r) bm) rows bm0) = fst ` set bm0 \<union> f ` set rows"
  by (induction rows arbitrary: bm0) (auto simp: dom_update)

lemma distinct_fold_update:
  "distinct (map fst bm0) \<Longrightarrow> distinct (map fst (fold (\<lambda>r bm. AList.update (f r) (g r) bm) rows bm0))"
  by (induction rows arbitrary: bm0) (simp_all add: distinct_update)

lemma set_keysSorted: "set (keysSorted (byMonth_loop env rows)) = monthKey env ` set rows"
  using keys_of_fold_update[of "monthKey env" nav rows "[]"]
  by (simp add: keysSorted_def byMonth_loop_def)

lemma strict_sorted_keysSorted: "sorted_wrt (<) (keysSorted (byMonth_loop env rows))"
proof -
  have "distinct (map fst (byMonth_loop env rows))"
    unfolding byMonth_loop_def by (rule distinct_fold_update) simp
  then show ?thesis by (simp add: keysSorted_def strict_sorted_iff)
qed

lemma bucket_defined:
  assumes "r \<in> set rows"
  shows "\<exists>v. map_of (byMonth_loop env rows) (monthKey env r) = Some v"
proof -
  have "monthKey env r \<in> fst ` set (byMonth_loop env rows)"
    using assms keys_of_fold_update[of "monthKey env" nav rows "[]"]
    by (simp add: byMonth_loop_def)
  then show ?thesis by (metis map_of_eq_None_iff not_Some_eq)
qed

lemma month_step_apply:
  "month_step env bm k out y =
     (if y = key_year k
      then Some ((case out (key_year k) of None \<Rightarrow> [] | Some l \<Rightarrow> l) @
                 [\<lparr>mr_month = key_month k, mr_ret = month_ret env bm k\<rparr>])
      else out y)"
  by (simp add: month_step_def Let_def)

lemma fold_month_step:
  "fold (month_step env bm) ks out y =
     (let es = map (\<lambda>k. \<lparr>mr_month = key_month k, mr_ret = month_ret env bm k\<rparr>)
                (filter (\<lambda>k. key_year k = y) ks)
      in if es = [] then out y
         else Some ((case out y of None \<Rightarrow> [] | Some l \<Rightarrow> l) @ es))"
proof (induction ks arbitrary: out)
  case Nil
  then show ?case by simp
next
  case (Cons k ks)
  have "fold (month_step env bm) (k # ks) out y =
        fold (month_step env bm) ks (month_step env bm k out) y" by simp
  also have "\<dots> =
     (let es = map (\<lambda>k. \<lparr>mr_month = key_month k, mr_ret = month_ret env bm k\<rparr>)
                (filter (\<lambda>k. key_year k = y) ks)
      in if es = [] then month_step env bm k out y
         else Some ((case month_step env bm k out y of None \<Rightarrow> [] | Some l \<Rightarrow> l) @ es))"
    by (rule Cons.IH)
  also have "\<dots> =
     (let es = map (\<lambda>k. \<lparr>mr_month = key_month k, mr_ret = month_ret env bm k\<rparr>)
                (filter (\<lambda>k. key_year k = y) (k # ks))
      in if es = [] then out y
         else Some ((case out y of None \<Rightarrow> [] | Some l \<Rightarrow> l) @ es))"
    by (cases "key_year k = y") (auto simp: month_step_apply Let_def)
  finally show ?case .
qed

lemma month_ret_expected:
  assumes "map_of bm k = Some v"
  shows "month_ret env bm k = expected_ret (map_of bm (prevKey env k)) v"
  using assms by (simp add: month_ret_def expected_ret_def)

lemma append_less_cancel: "(p @ a < p @ b) = (a < (b :: string))"
  by (induction p) simp_all

text \<open>Every key is the key of a year and of a month between 1 and 12.\<close>

lemma key_of_row:
  assumes "valid_series rows" "zone_ok env" "r \<in> set rows"
  obtains t where "date r = Some t"
    "monthKey env r = month_key (YearFromTime (LocalTime env t)) (MonthFromTime (LocalTime env t) + 1)"
    "\<bar>YearFromTime (LocalTime env t)\<bar> \<le> 276371"
proof -
  from local_year_bound[OF assms] obtain t where
    t: "date r = Some t" "\<bar>YearFromTime (LocalTime env t)\<bar> \<le> 276371" by blast
  from monthKey_form[OF t] t that show ?thesis by blast
qed

lemma show_int_ne: "show_int y \<noteq> []"
  using digits_of_all_digits by (simp add: show_int_def)

lemma keys_of_a_year:
  assumes "valid_series rows" "zone_ok env" "0 \<le> y"
    and "k \<in> set (keysSorted (byMonth_loop env rows))" "key_year k = show_int y"
  shows "\<exists>mm. k = show_int y @ ''-'' @ mm \<and> key_month k = JStr mm"
proof -
  from assms(4) obtain r where r: "r \<in> set rows" "k = monthKey env r"
    by (auto simp: set_keysSorted)
  from key_of_row[OF assms(1,2) r(1)] obtain t where
    t: "monthKey env r = month_key (YearFromTime (LocalTime env t)) (MonthFromTime (LocalTime env t) + 1)"
    by blast
  define y' where "y' = YearFromTime (LocalTime env t)"
  define m' where "m' = MonthFromTime (LocalTime env t) + 1"
  have m': "1 \<le> m'" "m' \<le> 12" using MonthFromTime_range[of "LocalTime env t"] by (simp_all add: m'_def)
  have k: "k = month_key y' m'" using r(2) t by (simp add: y'_def m'_def)
  have "0 \<le> y'"
  proof (rule ccontr)
    assume "\<not> 0 \<le> y'"
    then have "key_year k = []" using k by (simp add: key_year_neg)
    then show False using assms(5) show_int_ne by simp
  qed
  from key_parts_nonneg[OF this m'] k assms(5)
  have "show_int y' = show_int y" "key_month k = JStr (padStart2 (show_int m'))" by simp_all
  then show ?thesis using k by (simp add: month_key_def)
qed

lemma months_of_a_year_increase:
  assumes "valid_series rows" "zone_ok env" "0 \<le> y"
  shows "\<exists>ms. map key_month (filter (\<lambda>k. key_year k = show_int y) (keysSorted (byMonth_loop env rows)))
           = map JStr ms \<and> sorted_wrt (<) ms"
proof -
  let ?K = "filter (\<lambda>k. key_year k = show_int y) (keysSorted (byMonth_loop env rows))"
  let ?n = "length (show_int y @ ''-'')"
  have form: "\<exists>mm. k = show_int y @ ''-'' @ mm \<and> key_month k = JStr mm" if "k \<in> set ?K" for k
    using that keys_of_a_year[OF assms] by simp
  have a: "map key_month ?K = map JStr (map (drop ?n) ?K)"
  proof (simp only: map_map, rule map_cong[OF refl])
    fix k assume "k \<in> set ?K"
    from form[OF this] obtain mm where "k = show_int y @ ''-'' @ mm" "key_month k = JStr mm" by blast
    then show "key_month k = (JStr \<circ> drop ?n) k" by simp
  qed
  have "sorted_wrt (<) ?K" using strict_sorted_keysSorted by (rule sorted_wrt_filter)
  then have "sorted_wrt (\<lambda>a b. drop ?n a < drop ?n b) ?K"
  proof (rule sorted_wrt_mono_rel[rotated])
    fix a b assume "a \<in> set ?K" "b \<in> set ?K" "a < b"
    from form[OF this(1)] form[OF this(2)] obtain ma mb where
      "a = (show_int y @ ''-'') @ ma" "b = (show_int y @ ''-'') @ mb" by auto
    with \<open>a < b\<close> show "drop ?n a < drop ?n b" by (simp only: append_less_cancel drop_append) simp
  qed
  then have "sorted_wrt (<) (map (drop ?n) ?K)" by (simp add: sorted_wrt_map)
  with a show ?thesis by blast
qed

lemma valid_series_dates: "valid_series rows \<Longrightarrow> \<forall>r\<in>set rows. date r \<noteq> None"
  by (auto simp: valid_series_def)

section \<open>Worked examples of the monthly matrix\<close>

lemma number_value_neg_one: "number_value z (- 1) = Fin (- 1)"
  using number_value_of_int[of "- 1" z] by simp

lemma NumberToString_small:
  "NumberToString env (Fin (- 1)) = ''-1''"
  using NumberToString_int[of "- 1" env] by (simp add: show_int_def digits_of.simps digit_char_def)

lemma bce_prevKey: "prevKey utc_env ''-1-07'' = ''-1-12''"
  by (simp add: series_defs number_defs string_defs Let_def digits_of.simps number_value_neg_one
     NumberToString_small del: NumberToString_def)

lemma bce_preceding_key: "preceding_key (- 1) 7 = ''-1-06''"
  by (simp add: preceding_key_def month_key_def string_defs digits_of.simps)

lemma floor_neg_one: "\<lfloor>- 1 :: real\<rfloor> = - 1"
  by (metis floor_of_int of_int_minus of_int_1)

lemma replicate_numeral_unfold: "replicate (numeral k) x = x # replicate (pred_numeral k) x"
  by (simp add: numeral_eq_Suc)

lemma bce_buckets:
  "byMonth_loop utc_env
     [\<lparr>date = Some (- 62184499200000), nav = Fin 100\<rparr>,
      \<lparr>date = Some (- 62181907200000), nav = Fin 200\<rparr>] =
   [(''-1-06'', Fin 100), (''-1-07'', Fin 200)]"
  by (simp add: series_defs number_defs string_defs calendar_defs utc_env_simps Let_def
      digits_of.simps floor_neg_one)

lemma bce_example:
  "computeSeries utc_env
     [\<lparr>date = Some (- 62184499200000), nav = Fin 100\<rparr>,
      \<lparr>date = Some (- 62181907200000), nav = Fin 200\<rparr>] =
   Inr \<lparr>equity = [\<lparr>ep_date = ''-000001-06'', ep_value = Fin 100\<rparr>,
                   \<lparr>ep_date = ''-000001-07'', ep_value = Fin 200\<rparr>],
        drawdown = [\<lparr>dp_date = ''-000001-06'', dp_drawdown = Fin 0\<rparr>,
                    \<lparr>dp_date = ''-000001-07'', dp_drawdown = Fin 0\<rparr>],
        monthReturnsByYear =
          [[] \<mapsto> [\<lparr>mr_month = JStr ''1'', mr_ret = None\<rparr>,
                    \<lparr>mr_month = JStr ''1'', mr_ret = None\<rparr>]]\<rparr>"
  by (simp add: series_defs number_defs string_defs calendar_defs utc_env_simps Let_def
      digits_of.simps floor_neg_one number_value_neg_one replicate_numeral_unfold)

lemma zone_ok_utc: "zone_ok utc_env"
  by (simp add: zone_ok_def utc_env_def msPerDay_def)

lemma gap_buckets:
  "byMonth_loop utc_env
     [\<lparr>date = Some 1700006400000, nav = Fin 100\<rparr>, \<lparr>date = Some 1705276800000, nav = Fin 110\<rparr>] =
   [(''2023-11'', Fin 100), (''2024-01'', Fin 110)]"
  by (simp add: series_defs number_defs string_defs calendar_defs utc_env_simps Let_def
      digits_of.simps)

lemma gap_calendar:
  "YearFromTime (LocalTime utc_env 1705276800000) = 2024"
  "MonthFromTime (LocalTime utc_env 1705276800000) + 1 = 1"
  by (simp_all add: calendar_defs utc_env_simps)

lemma gap_keys:
  "show_int 2024 = ''2024''" "padStart2 (show_int 1) = ''01''" "preceding_key 2024 1 = ''2023-12''"
  by (simp_all add: preceding_key_def month_key_def string_defs digits_of.simps)

section \<open>The scenario of the specification\<close>

text \<open>
  The navs 100, 110 and 99 at the ends of January, February and March 2023. The quotients
  are not doubles: \<open>110 / 100\<close> rounds to \<open>2476979795053773 / 2^51\<close>, and its product with
  100 to the double next above 110, which \<^verbatim>\<open>toFixed(2)\<close> prints as \<^verbatim>\<open>110.00\<close>. The model
  returns what the specification lists: equity 100, 110, 99; drawdown 0, 0, -10; returns
  \<^verbatim>\<open>null\<close>, 10, -10.
\<close>

lemma number_value_at:
  assumes "2 powi e \<le> \<bar>x\<bar>" "\<bar>x\<bar> < 2 powi (e + 1)" "- 1022 \<le> e"
  shows "number_value z x =
     (let m = round_half_even (\<bar>x\<bar> / 2 powi (e - 52));
          y = of_int m * 2 powi (e - 52)
      in if 2 powi 1024 \<le> y then inf_of (x < 0)
         else if m = 0 then zero_of (x < 0)
         else Fin (if x < 0 then - y else y))"
proof -
  have pos: "0 < \<bar>x\<bar>" using assms(1) by (smt (verit) zero_less_power_int)
  then have x0: "x \<noteq> 0" by simp
  have a: "(2::real) powr of_int e = 2 powi e" by (simp add: powr_real_of_int')
  have b: "(2::real) powr of_int (e + 1) = 2 powi (e + 1)" using powr_real_of_int'[of "2::real" "e + 1"] by (simp del: of_int_add)
  have "\<lfloor>log 2 \<bar>x\<bar>\<rfloor> = e"
    using floor_log_eq_powr_iff[of "\<bar>x\<bar>" 2 e] pos assms(1,2) unfolding a b by simp
  then show ?thesis using x0 assms(3) by (simp add: number_value_def Let_def max_def)
qed

lemma scenario_round_1: "number_value z (11 / 10) = Fin (2476979795053773 / 2251799813685248)"
  by (subst number_value_at[where e = "0"]) (simp_all add: round_half_even_def Let_def)

lemma scenario_round_2: "number_value z (61924494876344325 / 562949953421312) = Fin (7740561859543041 / 70368744177664)"
  by (subst number_value_at[where e = "6"]) (simp_all add: round_half_even_def Let_def)

lemma scenario_round_3: "number_value z (99 / 100) = Fin (4458563631096791 / 4503599627370496)"
  by (subst number_value_at[where e = "- 1"]) (simp_all add: round_half_even_def Let_def)

lemma scenario_round_4: "number_value z (111464090777419775 / 1125899906842624) = Fin (99)"
  by (subst number_value_at[where e = "6"]) (simp_all add: round_half_even_def Let_def)

lemma scenario_round_5: "number_value z (- (1 / 10)) = Fin (- (3602879701896397 / 36028797018963968))"
  by (subst number_value_at[where e = "- 4"]) (simp_all add: round_half_even_def Let_def)

lemma scenario_round_6: "number_value z (- (90071992547409925 / 9007199254740992)) = Fin (- 10)"
  by (subst number_value_at[where e = "3"]) (simp_all add: round_half_even_def Let_def)

lemma scenario_round_7: "number_value z (225179981368525 / 2251799813685248) = Fin (225179981368525 / 2251799813685248)"
  by (subst number_value_at[where e = "- 4"]) (simp_all add: round_half_even_def Let_def)

lemma scenario_round_8: "number_value z (5629499534213125 / 562949953421312) = Fin (5629499534213125 / 562949953421312)"
  by (subst number_value_at[where e = "3"]) (simp_all add: round_half_even_def Let_def)

lemma scenario_round_9: "number_value z (9 / 10) = Fin (8106479329266893 / 9007199254740992)"
  by (subst number_value_at[where e = "- 1"]) (simp_all add: round_half_even_def Let_def)

lemma scenario_round_10: "number_value z (- (900719925474099 / 9007199254740992)) = Fin (- (900719925474099 / 9007199254740992))"
  by (subst number_value_at[where e = "- 4"]) (simp_all add: round_half_even_def Let_def)

lemma scenario_round_11: "number_value z (- (22517998136852475 / 2251799813685248)) = Fin (- (5629499534213119 / 562949953421312))"
  by (subst number_value_at[where e = "3"]) (simp_all add: round_half_even_def Let_def)

lemmas scenario_rounds = scenario_round_1 scenario_round_2 scenario_round_3 scenario_round_4 scenario_round_5 scenario_round_6 scenario_round_7 scenario_round_8 scenario_round_9 scenario_round_10 scenario_round_11

lemma scenario_example:
  "computeSeries utc_env
     [\<lparr>date = Some 1675123200000, nav = Fin 100\<rparr>, \<lparr>date = Some 1677542400000, nav = Fin 110\<rparr>,
      \<lparr>date = Some 1680220800000, nav = Fin 99\<rparr>] =
   Inr \<lparr>equity = [\<lparr>ep_date = ''2023-01-31'', ep_value = Fin 100\<rparr>,
                   \<lparr>ep_date = ''2023-02-28'', ep_value = Fin 110\<rparr>,
                   \<lparr>ep_date = ''2023-03-31'', ep_value = Fin 99\<rparr>],
        drawdown = [\<lparr>dp_date = ''2023-01-31'', dp_drawdown = Fin 0\<rparr>,
                    \<lparr>dp_date = ''2023-02-28'', dp_drawdown = Fin 0\<rparr>,
                    \<lparr>dp_date = ''2023-03-31'', dp_drawdown = Fin (- 10)\<rparr>],
        monthReturnsByYear =
          [''2023'' \<mapsto> [\<lparr>mr_month = JStr ''01'', mr_ret = None\<rparr>,
                         \<lparr>mr_month = JStr ''02'', mr_ret = Some (Fin 10)\<rparr>,
                         \<lparr>mr_month = JStr ''03'', mr_ret = Some (Fin (- 10))\<rparr>]]\<rparr>"
  by (simp add: series_defs number_defs string_defs calendar_defs utc_env_simps Let_def
      digits_of.simps scenario_rounds)

section \<open>The claims\<close>

text \<open>
  C3. Claimed: a raw record is in the normalizer's output if and only if its Date parses
  to a valid date and its Nav coerces to a finite number. The code tests \<^verbatim>\<open>!isNaN(r.nav)\<close>,
  which also lets the two infinities through. What holds: the output holds, with
  multiplicity, exactly the conversions of the raw records whose Date gives a valid date
  and whose Nav does not coerce to \<open>NaN\<close>; no input is an error.
\<close>

theorem normalizer_keeps_exactly:
  "mset (parseSheetData env raw) =
   mset (map (to_row env) (filter (\<lambda>r. date_valid env r \<and> nav_number r \<noteq> NaN) raw))"
  by (simp add: parseSheetData_eq mset_array_sort filter_map comp_def keep_row_iff)

text \<open>
  The claim as stated fails on a sheet whose Nav cell holds the text \<^verbatim>\<open>Infinity\<close>:
  \<^verbatim>\<open>Number("Infinity")\<close> is not finite, and the record is kept.
\<close>

theorem infinite_nav_is_kept:
  "mset (parseSheetData utc_env [raw_rec (JNum (Fin 45000)) (JStr ''Infinity'')]) \<noteq>
   mset (map (to_row utc_env)
     (filter (\<lambda>r. date_valid utc_env r \<and> finite_number (nav_number r))
        [raw_rec (JNum (Fin 45000)) (JStr ''Infinity'')]))"
  by (simp add: parseSheetData_eq mset_array_sort nav_number_def prop_of_raw_rec
      StringToNumber_Infinity to_row_raw_rec keep_row_def isNaN_def NewDate_num TimeClip_def
      time_number_def)

text \<open>
  C5. For every list of raw records the normalizer's output is in non-decreasing date
  order, and the sort is stable: for every date, the output rows of that date are the kept
  rows of that date in their input order.
\<close>

theorem normalizer_sorted_stable:
  "sorted_wrt date_le (parseSheetData env raw) \<and>
   (\<forall>d. filter (\<lambda>r. date r = d) (parseSheetData env raw) =
        filter (\<lambda>r. date r = d) (filter keep_row (map (to_row env) raw)))"
  unfolding parseSheetData_eq
  by (intro conjI allI sorted_array_sort stable_array_sort) (auto simp: keep_row_date)

text \<open>
  C8. Claimed: every record the normalizer outputs has a positive, finite nav. The filter
  only excludes \<open>NaN\<close>. What holds: the nav of every output record is a Number other
  than \<open>NaN\<close>; it may be zero, negative or infinite.
\<close>

theorem normalizer_nav_not_NaN: "\<forall>r\<in>set (parseSheetData env raw). nav r \<noteq> NaN"
  by (auto simp: parseSheetData_eq set_array_sort keep_row_def isNaN_def)

theorem normalizer_nav_not_NaN_witness:
  "parseSheetData utc_env [raw_rec (JNum (Fin 45000)) (JNum (Fin 100))] =
     [\<lparr>date = Some 45000, nav = Fin 100\<rparr>] \<and>
   list_all (\<lambda>r. nav r \<noteq> NaN) (parseSheetData utc_env [raw_rec (JNum (Fin 45000)) (JNum (Fin 100))])"
proof -
  have "parseSheetData utc_env [raw_rec (JNum (Fin 45000)) (JNum (Fin 100))] =
     [\<lparr>date = Some 45000, nav = Fin 100\<rparr>]"
    by (simp add: parseSheetData_eq array_sort_def to_row_raw_rec NewDate_num TimeClip_def
        keep_row_def isNaN_def time_number_def)
  moreover have "list_all (\<lambda>r. nav r \<noteq> NaN)
      (parseSheetData utc_env [raw_rec (JNum (Fin 45000)) (JNum (Fin 100))])"
    using normalizer_nav_not_NaN[of utc_env "[raw_rec (JNum (Fin 45000)) (JNum (Fin 100))]"]
    by (simp only: list_all_iff)
  ultimately show ?thesis by (rule conjI)
qed

text \<open>The claim as stated fails on the navs \<open>-5\<close> and \<open>0\<close>, which the filter keeps.\<close>

theorem nonpositive_nav_is_kept:
  "\<not> (\<forall>r\<in>set (parseSheetData utc_env
          [raw_rec (JNum (Fin 45000)) (JNum (Fin (- 5))), raw_rec (JNum (Fin 45001)) (JNum (Fin 0))]).
        positive_real (nav r))"
  by (simp add: parseSheetData_eq set_array_sort to_row_raw_rec NewDate_num TimeClip_def
      keep_row_def isNaN_def time_number_def)




text \<open>
  C6. For every series, when several rows fall in the same month key the bucket of that
  key holds the nav of the last of them in series order: if no row after \<open>r\<close> has the
  month key of \<open>r\<close>, the bucket of that key is the nav of \<open>r\<close>. The rows of 2023-05-01
  (100) and 2023-05-31 (105) leave 105 in the bucket \<^verbatim>\<open>2023-05\<close>.
\<close>

theorem bucket_last_wins:
  assumes "\<forall>r'\<in>set ys. monthKey env r' \<noteq> monthKey env r"
  shows "map_of (byMonth_loop env (xs @ r # ys)) (monthKey env r) = Some (nav r)"
proof -
  have "map_of (byMonth_loop env (xs @ r # ys)) (monthKey env r) =
        fold (\<lambda>r m. m(monthKey env r \<mapsto> nav r)) ys
          ((fold (\<lambda>r m. m(monthKey env r \<mapsto> nav r)) xs Map.empty)(monthKey env r \<mapsto> nav r))
          (monthKey env r)"
    by (simp add: byMonth_loop_def map_of_byMonth_fold update_conv')
  also have "\<dots> = Some (nav r)"
    using assms by (subst fold_upd_other) simp_all
  finally show ?thesis .
qed

theorem bucket_last_wins_witness:
  "monthKey utc_env \<lparr>date = Some 1682899200000, nav = Fin 100\<rparr> = ''2023-05'' \<and>
   monthKey utc_env \<lparr>date = Some 1685491200000, nav = Fin 105\<rparr> = ''2023-05'' \<and>
   map_of (byMonth_loop utc_env
     [\<lparr>date = Some 1682899200000, nav = Fin 100\<rparr>, \<lparr>date = Some 1685491200000, nav = Fin 105\<rparr>])
     ''2023-05'' = Some (Fin 105)"
  using bucket_last_wins[of "[]" utc_env "\<lparr>date = Some 1685491200000, nav = Fin 105\<rparr>"
      "[\<lparr>date = Some 1682899200000, nav = Fin 100\<rparr>]"]
  by (simp add: monthKey_may_1 monthKey_may_31)


text \<open>
  C9. Claimed: an input that is empty, or whose records are all invalid, gives three empty
  series and no error. With the specification's notion of a valid record (a finite nav)
  this fails, because the normalizer keeps an infinite nav. What holds: when every raw
  record fails the normalizer's own test (its Date gives no valid date, or its Nav coerces
  to \<open>NaN\<close>), and in particular when there is no record at all, \<^verbatim>\<open>computeSeries\<close>
  returns the three empty series. A sheet whose every Nav is the text \<^verbatim>\<open>abc\<close> is such
  an input.
\<close>

theorem degenerate_input_gives_empty_series:
  assumes "\<forall>r\<in>set raw. \<not> (date_valid env r \<and> nav_number r \<noteq> NaN)"
  shows "computeSeries env (parseSheetData env raw) = Inr empty_series"
  using parseSheetData_all_dropped[OF assms] by (simp add: computeSeries_def empty_series_def)

theorem degenerate_input_gives_empty_series_witness:
  "list_all (\<lambda>r. \<not> (date_valid utc_env r \<and> nav_number r \<noteq> NaN))
     [raw_rec (JNum (Fin 45000)) (JStr ''abc''), raw_rec (JNum (Fin 45001)) (JStr ''abc'')] \<and>
   computeSeries utc_env (parseSheetData utc_env
     [raw_rec (JNum (Fin 45000)) (JStr ''abc''), raw_rec (JNum (Fin 45001)) (JStr ''abc'')])
     = Inr empty_series"
proof -
  have inv: "\<forall>r\<in>set [raw_rec (JNum (Fin 45000)) (JStr ''abc''), raw_rec (JNum (Fin 45001)) (JStr ''abc'')].
      \<not> (date_valid utc_env r \<and> nav_number r \<noteq> NaN)"
    by (simp add: nav_number_def prop_of_raw_rec StringToNumber_abc)
  from degenerate_input_gives_empty_series[OF inv] inv show ?thesis
    by (simp only: list_all_iff simp_thms)
qed

text \<open>
  The claim as stated fails on a sheet whose only Nav holds the text \<^verbatim>\<open>-Infinity\<close>: the
  record is not valid in the specification's sense, and the equity series is not empty.
\<close>

theorem infinite_nav_input_is_not_empty:
  "\<not> ((\<forall>r\<in>set [raw_rec (JNum (Fin 45000)) (JStr ''-Infinity'')].
          \<not> (date_valid utc_env r \<and> finite_number (nav_number r))) \<longrightarrow>
       computeSeries utc_env (parseSheetData utc_env [raw_rec (JNum (Fin 45000)) (JStr ''-Infinity'')])
         = Inr empty_series)"
proof -
  have rows: "parseSheetData utc_env [raw_rec (JNum (Fin 45000)) (JStr ''-Infinity'')] =
      [\<lparr>date = Some 45000, nav = NInf\<rparr>]"
    by (simp add: parseSheetData_eq array_sort_def to_row_raw_rec NewDate_num TimeClip_def
        keep_row_def isNaN_def time_number_def StringToNumber_neg_Infinity)
  have "\<forall>r\<in>set [\<lparr>date = Some 45000, nav = NInf\<rparr>]. date r \<noteq> None" by simp
  from computeSeries_valid[OF this, of utc_env] obtain res where
    res: "computeSeries utc_env [\<lparr>date = Some 45000, nav = NInf\<rparr>] = Inr res"
      "map ep_value (equity res) =
         map (\<lambda>r. fixed2 (js_mul (js_div (nav r) (nav (hd [\<lparr>date = Some 45000, nav = NInf\<rparr>]))) (Fin 100)))
           [\<lparr>date = Some 45000, nav = NInf\<rparr>]"
    by blast
  from res(2) have "equity res \<noteq> []" by auto
  then have "res \<noteq> empty_series" by (auto simp: empty_series_def)
  then show ?thesis
    using res(1) rows
    by (simp add: nav_number_def prop_of_raw_rec StringToNumber_neg_Infinity)
qed






text \<open>
  C7. Claimed: the drawdown is 0 at and only at the points whose equity value strictly
  exceeds every earlier one. The peak moves on a strict \<^verbatim>\<open>>\<close> only, but a point equal to
  the held peak also has drawdown 0, so "only at" fails. What holds: on every series of
  valid dates none of whose equity values is \<open>NaN\<close> or \<^verbatim>\<open>+Infinity\<close>, there is one
  drawdown point per equity point, and the drawdown is 0 at every point whose equity
  value is at least every earlier one: the first point, each new peak and each tie with
  the held peak.
\<close>

theorem drawdown_zero_at_running_maximum:
  assumes "\<forall>r\<in>set rows. date r \<noteq> None"
  shows "\<exists>res. computeSeries env rows = Inr res \<and> length (drawdown res) = length (equity res) \<and>
     ((\<forall>p\<in>set (equity res). ep_value p \<noteq> NaN \<and> ep_value p \<noteq> PInf) \<longrightarrow>
      (\<forall>i<length (equity res).
         (\<forall>j<i. js_le (ep_value (equity res ! j)) (ep_value (equity res ! i))) \<longrightarrow>
         dp_drawdown (drawdown res ! i) = Fin 0))"
proof -
  from computeSeries_valid[OF assms, of env] obtain res where
    res: "computeSeries env rows = Inr res"
    "map ep_value (equity res) =
       map (\<lambda>r. fixed2 (js_mul (js_div (nav r) (nav (hd rows))) (Fin 100))) rows"
    "drawdown res = drawdown_loop NInf (equity res)"
    by blast
  have len: "length (drawdown res) = length (equity res)"
    using res(3) by (simp add: length_drawdown_loop)
  have "dp_drawdown (drawdown res ! i) = Fin 0"
    if ok: "\<forall>p\<in>set (equity res). ep_value p \<noteq> NaN \<and> ep_value p \<noteq> PInf"
      and i: "i < length (equity res)"
      and mx: "\<forall>j<i. js_le (ep_value (equity res ! j)) (ep_value (equity res ! i))" for i
  proof -
    from equity_starts_at_100[OF res(1,2) ok] i obtain pt pts where
      eq: "equity res = pt # pts" and v: "ep_value pt = Fin 100" by auto
    show ?thesis
    proof (cases i)
      case 0
      then show ?thesis using res(3) eq first_step_from_NInf[OF v] by simp
    next
      case (Suc k)
      have k: "k < length pts" using i eq Suc by simp
      have le_prev: "\<forall>j<k. js_le (ep_value (pts ! j)) (ep_value (pts ! k))"
      proof (intro allI impI)
        fix j assume "j < k"
        then have "Suc j < i" using Suc by simp
        from mx[rule_format, OF this] show "js_le (ep_value (pts ! j)) (ep_value (pts ! k))"
          using Suc eq by simp
      qed
      have le_first: "js_le (Fin 100) (ep_value (pts ! k))"
        using mx[rule_format, of 0] Suc eq v by simp
      have "dp_drawdown (drawdown_loop (Fin 100) pts ! k) = Fin 0"
        using ok eq by (intro drawdown_loop_zero_at_maximum k le_prev le_first) simp_all
      then show ?thesis using res(3) eq first_step_from_NInf[OF v] Suc by simp
    qed
  qed
  then show ?thesis using res(1) len by blast
qed

theorem drawdown_zero_at_running_maximum_witness:
  "\<exists>res. computeSeries utc_env
       [\<lparr>date = Some 1675123200000, nav = Fin 100\<rparr>, \<lparr>date = Some 1677542400000, nav = Fin 200\<rparr>,
        \<lparr>date = Some 1680220800000, nav = Fin 200\<rparr>] = Inr res \<and>
     map ep_value (equity res) = [Fin 100, Fin 200, Fin 200] \<and>
     dp_drawdown (drawdown res ! 1) = Fin 0 \<and> dp_drawdown (drawdown res ! 2) = Fin 0"
proof -
  let ?rows = "[\<lparr>date = Some 1675123200000, nav = Fin 100\<rparr>,
     \<lparr>date = Some 1677542400000, nav = Fin 200\<rparr>, \<lparr>date = Some 1680220800000, nav = Fin 200\<rparr>]"
  have "\<forall>r\<in>set ?rows. date r \<noteq> None" by simp
  from drawdown_zero_at_running_maximum[OF this, of utc_env] obtain res where
    res: "computeSeries utc_env ?rows = Inr res"
    "(\<forall>p\<in>set (equity res). ep_value p \<noteq> NaN \<and> ep_value p \<noteq> PInf) \<longrightarrow>
      (\<forall>i<length (equity res).
         (\<forall>j<i. js_le (ep_value (equity res ! j)) (ep_value (equity res ! i))) \<longrightarrow>
         dp_drawdown (drawdown res ! i) = Fin 0)"
    by blast
  have vals: "map ep_value (equity res) = [Fin 100, Fin 200, Fin 200]"
    using equity_values_example[OF res(1)] by simp
  then have len: "length (equity res) = 3" by (metis length_map length_Cons list.size(3) numeral_3_eq_3)
  have nth: "ep_value (equity res ! i) = [Fin 100, Fin 200, Fin 200] ! i" if "i < 3" for i
    using that len vals by (metis nth_map)
  have "\<forall>v\<in>set (map ep_value (equity res)). v \<noteq> NaN \<and> v \<noteq> PInf"
    unfolding vals by simp
  then have ok: "\<forall>p\<in>set (equity res). ep_value p \<noteq> NaN \<and> ep_value p \<noteq> PInf" by simp
  have le1: "\<forall>j<1. js_le (ep_value (equity res ! j)) (ep_value (equity res ! 1))"
    by (simp add: nth js_le_def js_lt_def)
  have le2: "\<forall>j<2. js_le (ep_value (equity res ! j)) (ep_value (equity res ! 2))"
    by (simp add: nth js_le_def js_lt_def less_Suc_eq numeral_2_eq_2)
  from res(2) ok le1 len have "dp_drawdown (drawdown res ! 1) = Fin 0" by simp
  moreover from res(2) ok le2 len have "dp_drawdown (drawdown res ! 2) = Fin 0" by simp
  ultimately show ?thesis using res(1) vals by (intro exI[of _ res] conjI)
qed

text \<open>
  The claim as stated fails on two rows of equal nav: the second point does not exceed
  the first, and its drawdown is 0.
\<close>

theorem tie_has_zero_drawdown:
  "case computeSeries utc_env
       [\<lparr>date = Some 1675123200000, nav = Fin 100\<rparr>, \<lparr>date = Some 1677542400000, nav = Fin 100\<rparr>] of
     Inl e \<Rightarrow> False
   | Inr res \<Rightarrow>
       js_strict_eq (dp_drawdown (drawdown res ! 1)) (Fin 0) \<and>
       \<not> js_gt (ep_value (equity res ! 1)) (ep_value (equity res ! 0))"
  by (simp add: tie_example js_strict_eq_def js_gt_def js_lt_def)



text \<open>
  C10. Claimed: for every series, within each year of the monthly matrix the month strings
  are strictly increasing. A key is split at every \<^verbatim>\<open>-\<close>, so the key of a year before
  year 0 (\<^verbatim>\<open>-1-06\<close>) is filed under the year \<^verbatim>\<open>""\<close> with the digits of the year as
  its month: two months of such a year give the same month string twice. What holds: for
  every series of valid dates and every year \<open>y\<close> from 0 on, the months filed under the
  year key of \<open>y\<close> are strictly increasing, so no month appears twice.
\<close>

theorem months_strictly_increase_within_a_year:
  assumes "valid_series rows" "zone_ok env" "0 \<le> y"
  shows "\<exists>res. computeSeries env rows = Inr res \<and>
     (\<forall>L. monthReturnsByYear res (show_int y) = Some L \<longrightarrow>
        (\<exists>ms. map mr_month L = map JStr ms \<and> sorted_wrt (<) ms))"
proof -
  from computeSeries_valid[OF valid_series_dates[OF assms(1)], of env] obtain res where
    res: "computeSeries env rows = Inr res"
    "monthReturnsByYear res =
       fold (month_step env (byMonth_loop env rows)) (keysSorted (byMonth_loop env rows)) Map.empty"
    by blast
  let ?K = "filter (\<lambda>k. key_year k = show_int y) (keysSorted (byMonth_loop env rows))"
  have "\<exists>ms. map mr_month L = map JStr ms \<and> sorted_wrt (<) ms"
    if "monthReturnsByYear res (show_int y) = Some L" for L
  proof -
    from that have "L = map (\<lambda>k. \<lparr>mr_month = key_month k,
        mr_ret = month_ret env (byMonth_loop env rows) k\<rparr>) ?K"
      unfolding res(2) fold_month_step Let_def by (simp split: if_splits)
    then have "map mr_month L = map key_month ?K" by (simp add: comp_def)
    with months_of_a_year_increase[OF assms] show ?thesis by simp
  qed
  with res(1) show ?thesis by blast
qed

theorem months_strictly_increase_within_a_year_witness:
  "\<exists>res L. computeSeries utc_env
       [\<lparr>date = Some 1675123200000, nav = Fin 100\<rparr>, \<lparr>date = Some 1677542400000, nav = Fin 100\<rparr>]
       = Inr res \<and>
     monthReturnsByYear res ''2023'' = Some L \<and>
     map mr_month L = [JStr ''01'', JStr ''02''] \<and>
     (\<exists>ms. map mr_month L = map JStr ms \<and> sorted_wrt (<) ms)"
proof -
  let ?rows = "[\<lparr>date = Some 1675123200000, nav = Fin 100\<rparr>, \<lparr>date = Some 1677542400000, nav = Fin 100\<rparr>]"
  have v: "valid_series ?rows" by (simp add: valid_series_def)
  have y: "show_int 2023 = ''2023''" by (simp add: show_int_def digits_of.simps digit_char_def)
  from months_strictly_increase_within_a_year[OF v zone_ok_utc, of 2023] obtain res where
    res: "computeSeries utc_env ?rows = Inr res"
    "\<forall>L. monthReturnsByYear res ''2023'' = Some L \<longrightarrow>
        (\<exists>ms. map mr_month L = map JStr ms \<and> sorted_wrt (<) ms)"
    unfolding y by auto
  let ?L = "[\<lparr>mr_month = JStr ''01'', mr_ret = None\<rparr>, \<lparr>mr_month = JStr ''02'', mr_ret = Some (Fin 0)\<rparr>]"
  have L: "monthReturnsByYear res ''2023'' = Some ?L"
    using res(1) by (auto simp: tie_example)
  with res(2) have "\<exists>ms. map mr_month ?L = map JStr ms \<and> sorted_wrt (<) ms" by blast
  with res(1) L show ?thesis by (intro exI[of _ res] exI[of _ ?L] conjI) simp_all
qed

text \<open>The claim as stated fails on the rows of June and July of the year \<open>-1\<close>.\<close>

theorem bce_months_repeat:
  "case computeSeries utc_env
       [\<lparr>date = Some (- 62184499200000), nav = Fin 100\<rparr>,
        \<lparr>date = Some (- 62181907200000), nav = Fin 200\<rparr>] of
     Inl e \<Rightarrow> False
   | Inr res \<Rightarrow>
       map mr_month (case monthReturnsByYear res [] of None \<Rightarrow> [] | Some L \<Rightarrow> L) =
         map JStr [''1'', ''1''] \<and>
       \<not> sorted_wrt (<) [''1'', ''1'']"
  by (simp add: bce_example)

text \<open>
  C1. Claimed: for every month key in the bucket mapping, the return is computed from the
  key of the calendar month immediately before it, and is \<^verbatim>\<open>null\<close> when that key is
  absent or its value is not positive. For a year before year 0 the split of the key
  yields the year's digits as the month, and the bucket looked up is another one. What
  holds: for every row of a series of valid dates whose local year \<open>y\<close> is 0 or later,
  with local month \<open>m\<close>, the row's key is that of \<open>y\<close> and \<open>m\<close>, its bucket holds a value
  \<open>v\<close>, and the matrix has under the year key of \<open>y\<close> an entry for month \<open>m\<close> whose
  return is computed from \<open>v\<close> and the bucket of the exact preceding key \<^verbatim>\<open>{y-1}-12\<close> or
  \<^verbatim>\<open>{y}-{m-1}\<close>: \<^verbatim>\<open>(v / prev - 1) * 100\<close> rounded to two decimals when that bucket is
  present, truthy and positive, \<^verbatim>\<open>null\<close> otherwise. With 2023-12 absent the return of
  2024-01 is \<^verbatim>\<open>null\<close> although 2023-11 has data.
\<close>

theorem return_uses_exact_preceding_key:
  assumes "valid_series rows" "zone_ok env" "r \<in> set rows" "date r = Some t"
    and "y = YearFromTime (LocalTime env t)" "m = MonthFromTime (LocalTime env t) + 1"
    and "0 \<le> y"
  shows "monthKey env r = month_key y m \<and>
     (\<exists>res L v. computeSeries env rows = Inr res \<and>
        map_of (byMonth_loop env rows) (month_key y m) = Some v \<and>
        monthReturnsByYear res (show_int y) = Some L \<and>
        \<lparr>mr_month = JStr (padStart2 (show_int m)),
         mr_ret = expected_ret (map_of (byMonth_loop env rows) (preceding_key y m)) v\<rparr> \<in> set L)"
proof -
  let ?bm = "byMonth_loop env rows"
  from key_of_row[OF assms(1,2,3)] assms(4) have
    key: "monthKey env r = month_key y m" and yb: "\<bar>y\<bar> \<le> 276371"
    by (simp_all add: assms(5,6))
  have m: "1 \<le> m" "m \<le> 12" using MonthFromTime_range[of "LocalTime env t"] by (simp_all add: assms(6))
  from bucket_defined[OF assms(3), of env] key obtain v where
    v: "map_of ?bm (month_key y m) = Some v" by auto
  from computeSeries_valid[OF valid_series_dates[OF assms(1)], of env] obtain res where
    res: "computeSeries env rows = Inr res"
    "monthReturnsByYear res = fold (month_step env ?bm) (keysSorted ?bm) Map.empty"
    by blast
  let ?K = "filter (\<lambda>k. key_year k = show_int y) (keysSorted ?bm)"
  let ?entry = "\<lambda>k. \<lparr>mr_month = key_month k, mr_ret = month_ret env ?bm k\<rparr>"
  have "monthKey env r \<in> monthKey env ` set rows" using assms(3) by (rule imageI)
  then have inK: "month_key y m \<in> set ?K"
    using key key_parts_nonneg(1)[OF assms(7) m] by (simp add: set_keysSorted)
  then have "?K \<noteq> []" by (metis empty_iff list.set(1))
  then have L: "monthReturnsByYear res (show_int y) = Some (map ?entry ?K)"
    unfolding res(2) fold_month_step Let_def by simp
  have prev: "prevKey env (month_key y m) = preceding_key y m"
    using assms(7) yb m by (intro prevKey_month_key) linarith+
  have "?entry (month_key y m) =
      \<lparr>mr_month = JStr (padStart2 (show_int m)),
       mr_ret = expected_ret (map_of ?bm (preceding_key y m)) v\<rparr>"
    by (simp add: key_parts_nonneg(2)[OF assms(7) m] month_ret_expected[OF v] prev)
  moreover have "?entry (month_key y m) \<in> set (map ?entry ?K)" using inK by (simp only: set_map) (rule imageI)
  ultimately have "\<lparr>mr_month = JStr (padStart2 (show_int m)),
       mr_ret = expected_ret (map_of ?bm (preceding_key y m)) v\<rparr> \<in> set (map ?entry ?K)" by simp
  with key res(1) v L show ?thesis by blast
qed

theorem return_uses_exact_preceding_key_witness:
  "map_of (byMonth_loop utc_env
     [\<lparr>date = Some 1700006400000, nav = Fin 100\<rparr>, \<lparr>date = Some 1705276800000, nav = Fin 110\<rparr>])
     ''2023-11'' = Some (Fin 100) \<and>
   map_of (byMonth_loop utc_env
     [\<lparr>date = Some 1700006400000, nav = Fin 100\<rparr>, \<lparr>date = Some 1705276800000, nav = Fin 110\<rparr>])
     ''2023-12'' = None \<and>
   (\<exists>res L. computeSeries utc_env
       [\<lparr>date = Some 1700006400000, nav = Fin 100\<rparr>, \<lparr>date = Some 1705276800000, nav = Fin 110\<rparr>]
       = Inr res \<and>
      monthReturnsByYear res ''2024'' = Some L \<and>
      \<lparr>mr_month = JStr ''01'', mr_ret = None\<rparr> \<in> set L)"
proof -
  let ?rows = "[\<lparr>date = Some 1700006400000, nav = Fin 100\<rparr>, \<lparr>date = Some 1705276800000, nav = Fin 110\<rparr>]"
  let ?r = "\<lparr>date = Some 1705276800000, nav = Fin 110\<rparr>"
  have v: "valid_series ?rows" by (simp add: valid_series_def)
  have "monthKey utc_env ?r = month_key 2024 1 \<and>
     (\<exists>res L v. computeSeries utc_env ?rows = Inr res \<and>
        map_of (byMonth_loop utc_env ?rows) (month_key 2024 1) = Some v \<and>
        monthReturnsByYear res (show_int 2024) = Some L \<and>
        \<lparr>mr_month = JStr (padStart2 (show_int 1)),
         mr_ret = expected_ret (map_of (byMonth_loop utc_env ?rows) (preceding_key 2024 1)) v\<rparr> \<in> set L)"
    by (rule return_uses_exact_preceding_key[OF v zone_ok_utc, of ?r 1705276800000])
       (simp_all add: gap_calendar)
  then obtain res L v where
    res: "computeSeries utc_env ?rows = Inr res"
    "monthReturnsByYear res ''2024'' = Some L"
    "\<lparr>mr_month = JStr ''01'',
         mr_ret = expected_ret (map_of (byMonth_loop utc_env ?rows) ''2023-12'') v\<rparr> \<in> set L"
    unfolding gap_keys by blast
  have none: "map_of (byMonth_loop utc_env ?rows) ''2023-12'' = None" by (simp add: gap_buckets)
  have some: "map_of (byMonth_loop utc_env ?rows) ''2023-11'' = Some (Fin 100)" by (simp add: gap_buckets)
  from res(3) have "\<lparr>mr_month = JStr ''01'', mr_ret = None\<rparr> \<in> set L"
    by (simp add: none expected_ret_def)
  with res(1,2) some none show ?thesis by (intro conjI exI[of _ res] exI[of _ L])
qed

text \<open>
  The claim as stated fails on the rows of June (100) and July (200) of the year \<open>-1\<close>:
  the bucket of the preceding key holds 100, yet the loop looks up the key of December
  and every return is \<^verbatim>\<open>null\<close>.
\<close>

theorem bce_return_ignores_preceding_month:
  "case computeSeries utc_env
       [\<lparr>date = Some (- 62184499200000), nav = Fin 100\<rparr>,
        \<lparr>date = Some (- 62181907200000), nav = Fin 200\<rparr>] of
     Inl e \<Rightarrow> False
   | Inr res \<Rightarrow>
       map fst (byMonth_loop utc_env
         [\<lparr>date = Some (- 62184499200000), nav = Fin 100\<rparr>,
          \<lparr>date = Some (- 62181907200000), nav = Fin 200\<rparr>]) = [month_key (- 1) 6, month_key (- 1) 7] \<and>
       map_of (byMonth_loop utc_env
         [\<lparr>date = Some (- 62184499200000), nav = Fin 100\<rparr>,
          \<lparr>date = Some (- 62181907200000), nav = Fin 200\<rparr>]) (preceding_key (- 1) 7) = Some (Fin 100) \<and>
       prevKey utc_env (month_key (- 1) 7) = month_key (- 1) 12 \<and>
       monthReturnsByYear res (show_int (- 1)) = None \<and>
       monthReturnsByYear res [] =
         Some [\<lparr>mr_month = JStr ''1'', mr_ret = None\<rparr>, \<lparr>mr_month = JStr ''1'', mr_ret = None\<rparr>]"
  by (simp add: bce_example bce_buckets bce_prevKey bce_preceding_key month_key_def
      show_int_def padStart2_def digits_of.simps digit_char_def)


end
